theory Spec2Isabelle
  imports Main "HOL-Library.Word"
begin

section \<open>Messages, channels and time\<close>

text \<open>
  \<^verbatim>\<open>type Message struct { Header string; Body []byte }\<close>: the topic is the header,
  the payload is the body.
\<close>

type_synonym byte = "8 word"

record Message =
  Header :: string
  Body :: "byte list"

text \<open>
  A buffered Go channel: the queued values (oldest first), the capacity given to
  \<^verbatim>\<open>make\<close>, and whether \<^verbatim>\<open>close\<close> has been called on it. Only buffered
  channels are modelled this way; the router's unbuffered \<^verbatim>\<open>register\<close> and
  \<^verbatim>\<open>unregister\<close> channels appear as the events their receiver handles.
\<close>

record 'a chan =
  buf :: "'a list"
  cap :: nat
  closed :: bool

definition make_chan :: "nat \<Rightarrow> 'a chan" where
  "make_chan n = \<lparr>buf = [], cap = n, closed = False\<rparr>"

text \<open>The runtime panics the code can reach on the modelled paths.\<close>

datatype fault = SendOnClosed | CloseOfClosed | NilPointer

text \<open>
  The result of running a piece of code up to its next suspension point: it returned
  (\<open>Done\<close>), its goroutine is parked in a channel operation that cannot proceed
  (\<open>Blocked\<close>), or it panicked.
\<close>

datatype ('a, 'b) outcome = Done 'a | Blocked 'b | Panic fault

text \<open>
  One attempt at \<^verbatim>\<open>c <- v\<close>. A send on a closed channel panics, also inside a
  \<^verbatim>\<open>select\<close>; a send on an open channel succeeds exactly when the buffer has room.
  Otherwise a plain send parks the goroutine and a \<^verbatim>\<open>select\<close> with a
  \<^verbatim>\<open>default\<close> branch takes that branch: both are \<open>Blocked\<close> here, and the caller
  says which it is.
\<close>

definition chan_send :: "'a chan \<Rightarrow> 'a \<Rightarrow> ('a chan, unit) outcome" where
  "chan_send c v =
     (if closed c then Panic SendOnClosed
      else if length (buf c) < cap c then Done (c\<lparr>buf := buf c @ [v]\<rparr>)
      else Blocked ())"

text \<open>\<^verbatim>\<open>close(c)\<close>: closing a closed channel panics.\<close>

definition chan_close :: "'a chan \<Rightarrow> fault + 'a chan" where
  "chan_close c = (if closed c then Inl CloseOfClosed else Inr (c\<lparr>closed := True\<rparr>))"

text \<open>
  One attempt at \<^verbatim>\<open>v, ok := <-c\<close>: the oldest queued value with \<open>ok\<close>, or
  \<open>None\<close> (the zero value, \<open>ok = false\<close>) from a closed and drained channel; an empty
  open channel parks the receiver.
\<close>

definition chan_recv :: "'a chan \<Rightarrow> ('a option \<times> 'a chan, unit) outcome" where
  "chan_recv c =
     (case buf c of
        v # vs \<Rightarrow> Done (Some v, c\<lparr>buf := vs\<rparr>)
      | [] \<Rightarrow> if closed c then Done (None, c) else Blocked ())"

text \<open>
  \<^verbatim>\<open>time.Duration\<close> counts nanoseconds. The constants below are Go constant
  expressions, evaluated exactly at compile time, and all of them fit 64 bits.
\<close>

definition Second :: int where
  "Second = 1000000000"

definition writeWait :: int where
  "writeWait = 10 * Second"

definition pongWait :: int where
  "pongWait = 60 * Second"

definition pingWait :: int where
  "pingWait = 90 * Second"

definition pingPeriod :: int where
  "pingPeriod = (pongWait * 5) div 10"

definition retryInterval :: int where
  "retryInterval = 3 * Second"

section \<open>Connections\<close>

text \<open>
  What the code uses of a \<^verbatim>\<open>*websocket.Conn\<close>: the remote end, the read deadline
  (\<open>None\<close> is the zero time, no deadline) and whether \<^verbatim>\<open>Close\<close> was called.
\<close>

record Conn =
  remote :: string
  readDeadline :: "int option"
  conn_closed :: bool

definition SetReadDeadline :: "int \<Rightarrow> Conn \<Rightarrow> Conn" where
  "SetReadDeadline t c = c\<lparr>readDeadline := Some t\<rparr>"

definition conn_Close :: "Conn \<Rightarrow> Conn" where
  "conn_Close c = c\<lparr>conn_closed := True\<rparr>"

text \<open>The result of \<^verbatim>\<open>dialer.Dial\<close>: the error text, or the connection.\<close>

type_synonym dial_result = "string + Conn"

text \<open>\<^verbatim>\<open>time.NewTicker(d)\<close>: a ticker that fires every \<open>d\<close> nanoseconds.\<close>

record Ticker =
  period :: int

definition NewTicker :: "int \<Rightarrow> Ticker" where
  "NewTicker d = \<lparr>period = d\<rparr>"

section \<open>Node: the connection to a peer router\<close>

record Node =
  Name :: string
  routerAddress :: string
  conn :: "Conn option"
  writeQueue :: "Message chan"
  readQueue :: "Message chan"
  filters :: "string \<rightharpoonup> bool"
  readDone :: "bool chan"
  writeDone :: "bool chan"
  lastPingTime :: int
  state :: string

text \<open>The goroutines a \<^verbatim>\<open>go\<close> statement of a node starts, and what a node does to the world.\<close>

datatype task = ReadPump | WritePump | RetryConnection

datatype effect = Dial string | Sleep int | Go task

definition NewNode :: "string \<Rightarrow> string list \<Rightarrow> Node" where
  "NewNode name fs =
     \<lparr>Name = name,
      routerAddress = [],
      conn = None,
      writeQueue = make_chan 4096,
      readQueue = make_chan 4096,
      filters = foldl (\<lambda>m f. m(f \<mapsto> True)) Map.empty fs,
      readDone = make_chan 1,
      writeDone = make_chan 1,
      lastPingTime = 0,
      state = ''standby''\<rparr>"

definition dial_url :: "Node \<Rightarrow> string" where
  "dial_url n = ''ws://'' @ routerAddress n @ ''/subscribe''"

text \<open>
  \<^verbatim>\<open>openConnection\<close>, given what the dial returns: the connection is stored on
  success, and the error is a new one that quotes the dial's.
\<close>

definition openConnection :: "dial_result \<Rightarrow> Node \<Rightarrow> Node \<times> string option" where
  "openConnection d n =
     (case d of
        Inl err \<Rightarrow>
          (n, Some (''failed opening websocket with '' @ routerAddress n @ '': '' @ err))
      | Inr c \<Rightarrow> (n\<lparr>conn := Some c\<rparr>, None))"

text \<open>
  \<^verbatim>\<open>ConnectToRouter\<close>. On a failed dial it posts both done tokens (plain sends on
  channels of capacity 1, so each parks the caller when a token is already there),
  starts \<^verbatim>\<open>retryConnection\<close> in a goroutine of its own and returns an error; it does
  not write \<^verbatim>\<open>n.state\<close> on that path. On success it sets the state to \<open>good\<close> and
  starts the two pumps. The result is the node, the effects in program order, and the
  returned error (\<open>None\<close> is \<^verbatim>\<open>nil\<close>).
\<close>

definition ConnectToRouter ::
  "string \<Rightarrow> dial_result \<Rightarrow> Node \<Rightarrow> (Node \<times> effect list \<times> string option, Node) outcome" where
  "ConnectToRouter address d n0 =
     (let n1 = n0\<lparr>routerAddress := address\<rparr>;
          (n, err) = openConnection d n1
      in case err of
           Some e \<Rightarrow>
             (case chan_send (readDone n) True of
                Panic f \<Rightarrow> Panic f
              | Blocked u \<Rightarrow> Blocked n
              | Done rd \<Rightarrow>
                  (case chan_send (writeDone n) True of
                     Panic f \<Rightarrow> Panic f
                   | Blocked u \<Rightarrow> Blocked (n\<lparr>readDone := rd\<rparr>)
                   | Done wd \<Rightarrow>
                       Done (n\<lparr>readDone := rd, writeDone := wd\<rparr>,
                             [Dial (dial_url n1), Go RetryConnection],
                             Some (''failed to open connection to router '' @ routerAddress n
                                   @ ''. retrying connection...''))))
         | None \<Rightarrow>
             Done (n\<lparr>state := ''good''\<rparr>, [Dial (dial_url n1), Go ReadPump, Go WritePump], None))"

text \<open>
  The loop of \<^verbatim>\<open>retryConnection\<close>: \<open>err\<close> is the result of the attempt before,
  \<open>dial i\<close> what the \<open>i\<close>-th dial of this retry returns. While the last attempt
  failed it sleeps \<open>retryInterval\<close> and dials again. It has no other exit, so with
  dials that all fail it runs forever: the value \<open>None\<close>.
\<close>

partial_function (option) retry_loop ::
  "(nat \<Rightarrow> dial_result) \<Rightarrow> nat \<Rightarrow> string option \<Rightarrow> Node \<Rightarrow> effect list
     \<Rightarrow> (Node \<times> effect list) option" where
  "retry_loop dial i err n tr =
     (case err of
        None \<Rightarrow> Some (n, tr)
      | Some e \<Rightarrow>
          retry_loop dial (Suc i) (snd (openConnection (dial i) n))
            (fst (openConnection (dial i) n)) (tr @ [Sleep retryInterval, Dial (dial_url n)]))"

text \<open>
  \<^verbatim>\<open>retryConnection\<close>: it appends \<open>retrying\<close> to the state (its first
  statement, \<open>mark_retrying\<close>), takes the reader's done
  token and then the writer's (parked while one is missing), dials until a dial
  succeeds, sets the state to \<open>good\<close> and starts both pumps.
\<close>

definition mark_retrying :: "Node \<Rightarrow> Node" where
  "mark_retrying n = n\<lparr>state := state n @ '' retrying''\<rparr>"

definition retryConnection ::
  "(nat \<Rightarrow> dial_result) \<Rightarrow> Node \<Rightarrow> (Node \<times> effect list, Node) outcome option" where
  "retryConnection dial n0 =
     (let n1 = mark_retrying n0
      in case chan_recv (readDone n1) of
           Panic f \<Rightarrow> Some (Panic f)
         | Blocked u \<Rightarrow> Some (Blocked n1)
         | Done (tok, rd) \<Rightarrow>
             (let n2 = n1\<lparr>readDone := rd\<rparr>
              in case chan_recv (writeDone n2) of
                   Panic f \<Rightarrow> Some (Panic f)
                 | Blocked u \<Rightarrow> Some (Blocked n2)
                 | Done (tok', wd) \<Rightarrow>
                     (let n3 = n2\<lparr>writeDone := wd\<rparr>
                      in case retry_loop dial 1 (snd (openConnection (dial 0) n3))
                                (fst (openConnection (dial 0) n3)) [Dial (dial_url n3)] of
                           None \<Rightarrow> None
                         | Some (n4, tr) \<Rightarrow>
                             Some (Done (n4\<lparr>state := ''good''\<rparr>,
                                         tr @ [Go ReadPump, Go WritePump])))))"

text \<open>
  The read deadline \<^verbatim>\<open>Node.readPump\<close> sets at its start and in its ping handler.
\<close>

definition Node_readPump_deadline :: "int \<Rightarrow> Conn \<Rightarrow> Conn" where
  "Node_readPump_deadline now c = SetReadDeadline (now + pingWait) c"

text \<open>
  The loop of \<^verbatim>\<open>Node.readPump\<close> over the messages \<^verbatim>\<open>ReadJSON\<close> decodes before
  it returns an error (the empty list: break). Control frames are answered inside
  \<^verbatim>\<open>ReadJSON\<close> and never reach the loop. A message whose header is no key of
  \<open>filters\<close> is skipped; any other is sent to \<open>readQueue\<close> with a plain send, which
  parks the pump, with the messages still to handle, while the queue is full.
\<close>

fun readPump_loop :: "Message list \<Rightarrow> Node \<Rightarrow> (Node, Node \<times> Message list) outcome" where
  "readPump_loop [] n = Done n"
| "readPump_loop (m # ms) n =
     (case filters n (Header m) of
        None \<Rightarrow> readPump_loop ms n
      | Some ok \<Rightarrow>
          (case chan_send (readQueue n) m of
             Panic f \<Rightarrow> Panic f
           | Blocked u \<Rightarrow> Blocked (n, m # ms)
           | Done q \<Rightarrow> readPump_loop ms (n\<lparr>readQueue := q\<rparr>)))"

text \<open>The deferred function of \<^verbatim>\<open>Node.readPump\<close>.\<close>

definition readPump_exit :: "Node \<Rightarrow> (Node, Node \<times> Message list) outcome" where
  "readPump_exit n =
     (case conn n of
        None \<Rightarrow> Panic NilPointer
      | Some c \<Rightarrow>
          (let n1 = n\<lparr>conn := Some (conn_Close c), state := ''down''\<rparr>
           in case chan_send (readDone n1) True of
                Panic f \<Rightarrow> Panic f
              | Blocked u \<Rightarrow> Blocked (n1, [])
              | Done rd \<Rightarrow> Done (n1\<lparr>readDone := rd\<rparr>)))"

definition readPump :: "int \<Rightarrow> Message list \<Rightarrow> Node \<Rightarrow> (Node, Node \<times> Message list) outcome" where
  "readPump now ms n =
     (case conn n of
        None \<Rightarrow> Panic NilPointer
      | Some c \<Rightarrow>
          (case readPump_loop ms (n\<lparr>conn := Some (Node_readPump_deadline now c)\<rparr>) of
             Panic f \<Rightarrow> Panic f
           | Blocked b \<Rightarrow> Blocked b
           | Done n' \<Rightarrow> readPump_exit n'))"

text \<open>\<^verbatim>\<open>Node.Write\<close>: a plain send to \<open>writeQueue\<close>; the returned error is always nil.\<close>

definition Write :: "Message \<Rightarrow> Node \<Rightarrow> (Node \<times> string option, unit) outcome" where
  "Write message n =
     (case chan_send (writeQueue n) message of
        Panic f \<Rightarrow> Panic f
      | Blocked u \<Rightarrow> Blocked ()
      | Done q \<Rightarrow> Done (n\<lparr>writeQueue := q\<rparr>, None))"

section \<open>RouterBridge\<close>

text \<open>
  A bridge points at its node and at the router. The node is owned by the bridge
  (\<^verbatim>\<open>StartBridge\<close> makes a new one for each bridge), so it is kept by value; the router
  is a reference.
\<close>

type_synonym router_ref = nat

record RouterBridge =
  Node :: Node
  Router :: router_ref

text \<open>
  \<^verbatim>\<open>StartBridge\<close> returns the pointer to the bridge it allocated (\<open>Some\<close>: never
  \<^verbatim>\<open>nil\<close>) together with whatever \<^verbatim>\<open>ConnectToRouter\<close> returns on the new node.
\<close>

definition StartBridge ::
  "string \<Rightarrow> string list \<Rightarrow> router_ref \<Rightarrow> dial_result
     \<Rightarrow> (RouterBridge option \<times> effect list \<times> string option, Node) outcome" where
  "StartBridge address fs router d =
     (let toReturn = \<lparr>Node = NewNode address fs, Router = router\<rparr>
      in case ConnectToRouter address d (Node toReturn) of
           Done (n, effs, err) \<Rightarrow> Done (Some (toReturn\<lparr>Node := n\<rparr>), effs, err)
         | Blocked n \<Rightarrow> Blocked n
         | Panic f \<Rightarrow> Panic f)"

section \<open>Subscription: the connection from a client\<close>

text \<open>
  Of a subscription the router uses the send queue only; its connection appears in
  log lines alone, and its back pointer to the router is not used by the router.
\<close>

record Subscription =
  send :: "Message chan"

text \<open>
  The ticker \<^verbatim>\<open>Subscription.writePump\<close> creates for its pings, and the read deadline
  \<^verbatim>\<open>Subscription.readPump\<close> sets at its start and in its pong handler.
\<close>

definition Subscription_writePump_ticker :: Ticker where
  "Subscription_writePump_ticker = NewTicker pingPeriod"

definition Subscription_readPump_deadline :: "int \<Rightarrow> Conn \<Rightarrow> Conn" where
  "Subscription_readPump_deadline now c = SetReadDeadline (now + pongWait) c"

section \<open>Router\<close>

text \<open>
  Subscriptions and bridges are heap objects the router holds pointers to. A pointer
  is an index into the list of the objects allocated so far, which only grows.
  \<^verbatim>\<open>subscriptions\<close> and \<^verbatim>\<open>routerConnections\<close> are Go maps from pointers to
  \<^verbatim>\<open>bool\<close> in which every stored value is \<^verbatim>\<open>true\<close>: each is modelled by its keys,
  listed in the order a \<^verbatim>\<open>range\<close> loop visits them. Go leaves that order open, and
  the results below hold for every listing.
\<close>

type_synonym sub_ref = nat

type_synonym bridge_ref = nat

record Router =
  inChan :: "Message chan"
  outChan :: "Message chan"
  subscriptions :: "sub_ref list"
  routingTable :: "string \<rightharpoonup> string list"
  routerConnections :: "bridge_ref list"
  showMessageLogs :: bool

definition NewRouter :: Router where
  "NewRouter =
     \<lparr>inChan = make_chan 1024,
      outChan = make_chan 1024,
      subscriptions = [],
      routingTable = Map.empty,
      routerConnections = [],
      showMessageLogs = False\<rparr>"

record world =
  router :: Router
  sub_heap :: "Subscription list"
  bridge_heap :: "RouterBridge list"

definition sub_at :: "world \<Rightarrow> sub_ref \<Rightarrow> Subscription option" where
  "sub_at w p = (if p < length (sub_heap w) then Some (sub_heap w ! p) else None)"

definition bridge_at :: "world \<Rightarrow> bridge_ref \<Rightarrow> RouterBridge option" where
  "bridge_at w b = (if b < length (bridge_heap w) then Some (bridge_heap w ! b) else None)"

text \<open>
  The \<^verbatim>\<open>select\<close> of \<open>route\<close> for one subscription: the send when the queue has
  room, and otherwise the \<^verbatim>\<open>default\<close> branch, which closes the queue and deletes
  the subscription from the live set.
\<close>

definition route_sub :: "Message \<Rightarrow> sub_ref \<Rightarrow> world \<Rightarrow> fault + world" where
  "route_sub msg p w =
     (case sub_at w p of
        None \<Rightarrow> Inl NilPointer
      | Some sub \<Rightarrow>
          (case chan_send (send sub) msg of
             Panic f \<Rightarrow> Inl f
           | Done c \<Rightarrow> Inr (w\<lparr>sub_heap := (sub_heap w)[p := sub\<lparr>send := c\<rparr>]\<rparr>)
           | Blocked u \<Rightarrow>
               (case chan_close (send sub) of
                  Inl f \<Rightarrow> Inl f
                | Inr c \<Rightarrow>
                    Inr (w\<lparr>sub_heap := (sub_heap w)[p := sub\<lparr>send := c\<rparr>],
                           router := (router w)
                             \<lparr>subscriptions := removeAll p (subscriptions (router w))\<rparr>\<rparr>))))"

text \<open>\<^verbatim>\<open>for sub := range r.subscriptions\<close>, over the keys the loop visits.\<close>

fun route_subs :: "Message \<Rightarrow> sub_ref list \<Rightarrow> world \<Rightarrow> fault + world" where
  "route_subs msg [] w = Inr w"
| "route_subs msg (p # ps) w =
     (case route_sub msg p w of
        Inl f \<Rightarrow> Inl f
      | Inr w' \<Rightarrow> route_subs msg ps w')"

text \<open>
  \<^verbatim>\<open>RouterBridge.WritePassthrough\<close> calls \<open>Write\<close> on the bridge's node and drops
  the error it returns.
\<close>

definition WritePassthrough :: "bridge_ref \<Rightarrow> Message \<Rightarrow> world \<Rightarrow> (world, unit) outcome" where
  "WritePassthrough b msg w =
     (case bridge_at w b of
        None \<Rightarrow> Panic NilPointer
      | Some br \<Rightarrow>
          (case Write msg (Node br) of
             Panic f \<Rightarrow> Panic f
           | Blocked u \<Rightarrow> Blocked ()
           | Done (n, err) \<Rightarrow> Done (w\<lparr>bridge_heap := (bridge_heap w)[b := br\<lparr>Node := n\<rparr>]\<rparr>)))"

text \<open>
  \<^verbatim>\<open>for routerConn := range r.routerConnections\<close>. When a send parks the loop, the
  result holds the world as it is then and the bridges still to serve, the one the
  loop is parked at first.
\<close>

fun route_bridges ::
  "Message \<Rightarrow> bridge_ref list \<Rightarrow> world \<Rightarrow> (world, world \<times> bridge_ref list) outcome" where
  "route_bridges msg [] w = Done w"
| "route_bridges msg (b # bs) w =
     (case WritePassthrough b msg w of
        Panic f \<Rightarrow> Panic f
      | Blocked u \<Rightarrow> Blocked (w, b # bs)
      | Done w' \<Rightarrow> route_bridges msg bs w')"

text \<open>
  Where \<open>route\<close> is parked: the message of the send in progress, the bridges still
  to serve for it (the blocking one first), and the output headers still to do.
\<close>

datatype parked = Parked Message "bridge_ref list" "string list"

text \<open>
  \<^verbatim>\<open>for _, newHeader := range headers\<close>: for each output header, the live
  subscriptions and then the bridges, as the maps are when the inner loop starts.
\<close>

fun route_headers ::
  "byte list \<Rightarrow> string list \<Rightarrow> world \<Rightarrow> (world, world \<times> parked) outcome" where
  "route_headers body [] w = Done w"
| "route_headers body (newHeader # hs) w =
     (case route_subs \<lparr>Header = newHeader, Body = body\<rparr> (subscriptions (router w)) w of
        Inl f \<Rightarrow> Panic f
      | Inr w1 \<Rightarrow>
          (case route_bridges \<lparr>Header = newHeader, Body = body\<rparr>
                  (routerConnections (router w1)) w1 of
             Panic f \<Rightarrow> Panic f
           | Blocked (w2, bs) \<Rightarrow> Blocked (w2, Parked \<lparr>Header = newHeader, Body = body\<rparr> bs hs)
           | Done w2 \<Rightarrow> route_headers body hs w2))"

text \<open>\<open>route\<close>; the log lines under \<open>showMessageLogs\<close> are left out.\<close>

definition route :: "Message \<Rightarrow> world \<Rightarrow> (world, world \<times> parked) outcome" where
  "route message w =
     (case routingTable (router w) (Header message) of
        None \<Rightarrow> Done w
      | Some headers \<Rightarrow> route_headers (Body message) headers w)"

text \<open>
  A parked \<open>route\<close> goes on, once its send can proceed, where it stopped: the rest of
  the bridges for the message in progress, then the remaining output headers.
\<close>

definition resume :: "parked \<Rightarrow> world \<Rightarrow> (world, world \<times> parked) outcome" where
  "resume pk w =
     (case pk of
        Parked msg bs hs \<Rightarrow>
          (case route_bridges msg bs w of
             Panic f \<Rightarrow> Panic f
           | Blocked (w', bs') \<Rightarrow> Blocked (w', Parked msg bs' hs)
           | Done w' \<Rightarrow> route_headers (Body msg) hs w'))"

text \<open>The three cases of the \<^verbatim>\<open>select\<close> in \<open>StartRouter\<close>.\<close>

definition handle_register :: "sub_ref \<Rightarrow> world \<Rightarrow> world" where
  "handle_register p w =
     w\<lparr>router := (router w)
        \<lparr>subscriptions :=
           (if p \<in> set (subscriptions (router w)) then subscriptions (router w)
            else subscriptions (router w) @ [p])\<rparr>\<rparr>"

definition handle_unregister :: "sub_ref \<Rightarrow> world \<Rightarrow> fault + world" where
  "handle_unregister p w =
     (if p \<in> set (subscriptions (router w)) then
        (case sub_at w p of
           None \<Rightarrow> Inl NilPointer
         | Some sub \<Rightarrow>
             (case chan_close (send sub) of
                Inl f \<Rightarrow> Inl f
              | Inr c \<Rightarrow>
                  Inr (w\<lparr>router := (router w)
                           \<lparr>subscriptions := removeAll p (subscriptions (router w))\<rparr>,
                         sub_heap := (sub_heap w)[p := sub\<lparr>send := c\<rparr>]\<rparr>)))
      else Inr w)"

datatype event = Register sub_ref | Unregister sub_ref | Inbound Message

definition handle :: "event \<Rightarrow> world \<Rightarrow> (world, world \<times> parked) outcome" where
  "handle ev w =
     (case ev of
        Register p \<Rightarrow> Done (handle_register p w)
      | Unregister p \<Rightarrow>
          (case handle_unregister p w of Inl f \<Rightarrow> Panic f | Inr w' \<Rightarrow> Done w')
      | Inbound message \<Rightarrow> route message w)"

text \<open>
  \<open>StartRouter\<close> up to its loop: a world with the router \<open>NewRouter\<close> made, the
  message logs off and the given routing table.
\<close>

definition StartRouter_init :: "(string \<rightharpoonup> string list) \<Rightarrow> world" where
  "StartRouter_init table =
     \<lparr>router = NewRouter\<lparr>showMessageLogs := False, routingTable := table\<rparr>,
      sub_heap = [],
      bridge_heap = []\<rparr>"

section \<open>The goroutines around the router\<close>

text \<open>
  \<open>ListenForNodes\<close> after a successful upgrade: a new subscription with a send
  queue of capacity 1024 is allocated; its pointer is then sent on \<open>register\<close>.
\<close>

definition new_subscription :: "world \<Rightarrow> sub_ref \<times> world" where
  "new_subscription w =
     (length (sub_heap w), w\<lparr>sub_heap := sub_heap w @ [\<lparr>send = make_chan 1024\<rparr>]\<rparr>)"

text \<open>
  One receive of \<open>Subscription.writePump\<close> from its send queue, and one receive of
  \<open>Node.writePump\<close> from its write queue (nothing happens while there is nothing
  to take).
\<close>

definition Subscription_writePump_recv :: "sub_ref \<Rightarrow> world \<Rightarrow> world" where
  "Subscription_writePump_recv p w =
     (case sub_at w p of
        None \<Rightarrow> w
      | Some sub \<Rightarrow>
          (case chan_recv (send sub) of
             Done (v, c) \<Rightarrow> w\<lparr>sub_heap := (sub_heap w)[p := sub\<lparr>send := c\<rparr>]\<rparr>
           | Blocked u \<Rightarrow> w
           | Panic f \<Rightarrow> w))"

definition Node_writePump_recv :: "bridge_ref \<Rightarrow> world \<Rightarrow> world" where
  "Node_writePump_recv b w =
     (case bridge_at w b of
        None \<Rightarrow> w
      | Some br \<Rightarrow>
          (case chan_recv (writeQueue (Node br)) of
             Done (v, c) \<Rightarrow>
               w\<lparr>bridge_heap := (bridge_heap w)[b := br\<lparr>Node := (Node br)\<lparr>writeQueue := c\<rparr>\<rparr>]\<rparr>
           | Blocked u \<Rightarrow> w
           | Panic f \<Rightarrow> w))"

text \<open>
  The goroutine \<open>ConnectToRouters\<close> starts for one peer address: \<open>StartBridge\<close>,
  and only when no error came back the bridge's read passthrough is started (it feeds
  \<open>inChan\<close> and is not part of this model) and the bridge is entered into
  \<open>routerConnections\<close>. The source writes that map from the goroutine itself; here
  the write is a step of its own between two steps of the loop.
\<close>

definition connect_peer :: "string \<Rightarrow> string list \<Rightarrow> dial_result \<Rightarrow> world \<Rightarrow> world" where
  "connect_peer addr fs d w =
     (case StartBridge addr fs 0 d of
        Done (Some bridge, effs, None) \<Rightarrow>
          w\<lparr>bridge_heap := bridge_heap w @ [bridge],
            router := (router w)
              \<lparr>routerConnections :=
                 (if length (bridge_heap w) \<in> set (routerConnections (router w))
                  then routerConnections (router w)
                  else routerConnections (router w) @ [length (bridge_heap w)])\<rparr>\<rparr>
      | _ \<Rightarrow> w)"

text \<open>
  The router's loop together with the goroutines around it. The loop is either at
  its \<^verbatim>\<open>select\<close> or parked inside \<open>route\<close>. A step is one of: a client is
  accepted and its registration handled; the unregistration request of a reader that
  exited is handled; a message from \<open>inChan\<close> is routed; a writer pump takes a message
  from its queue; a peer is connected. While the loop is parked only the writer pumps
  move, and after each of their steps the parked send is tried again.
\<close>

datatype cfg = Running world | Stalled world parked

datatype action =
    Accept
  | ReaderExit sub_ref
  | Deliver Message
  | SubWriter sub_ref
  | NodeWriter bridge_ref
  | PeerUp string "string list" dial_result

definition settle :: "(world, world \<times> parked) outcome \<Rightarrow> fault + cfg" where
  "settle r =
     (case r of
        Done w \<Rightarrow> Inr (Running w)
      | Blocked (w, pk) \<Rightarrow> Inr (Stalled w pk)
      | Panic f \<Rightarrow> Inl f)"

fun exec :: "action \<Rightarrow> cfg \<Rightarrow> fault + cfg" where
  "exec Accept (Running w) =
     (case new_subscription w of (p, w') \<Rightarrow> settle (handle (Register p) w'))"
| "exec (ReaderExit p) (Running w) = settle (handle (Unregister p) w)"
| "exec (Deliver message) (Running w) = settle (handle (Inbound message) w)"
| "exec (SubWriter p) (Running w) = Inr (Running (Subscription_writePump_recv p w))"
| "exec (NodeWriter b) (Running w) = Inr (Running (Node_writePump_recv b w))"
| "exec (PeerUp addr fs d) (Running w) = Inr (Running (connect_peer addr fs d w))"
| "exec (SubWriter p) (Stalled w pk) = settle (resume pk (Subscription_writePump_recv p w))"
| "exec (NodeWriter b) (Stalled w pk) = settle (resume pk (Node_writePump_recv b w))"
| "exec a (Stalled w pk) = Inr (Stalled w pk)"

fun run :: "action list \<Rightarrow> cfg \<Rightarrow> fault + cfg" where
  "run [] c = Inr c"
| "run (a # as) c = (case exec a c of Inl f \<Rightarrow> Inl f | Inr c' \<Rightarrow> run as c')"

section \<open>Invariants and frames\<close>

text \<open>
  What the router relies on: the live sets list no pointer twice, every live
  subscription is allocated and its send queue is open, and every live bridge is
  allocated and its write queue is open.
\<close>

definition router_inv :: "world \<Rightarrow> bool" where
  "router_inv w \<longleftrightarrow>
     distinct (subscriptions (router w))
   \<and> distinct (routerConnections (router w))
   \<and> (\<forall>p \<in> set (subscriptions (router w)).
        p < length (sub_heap w) \<and> \<not> closed (send (sub_heap w ! p)))
   \<and> (\<forall>b \<in> set (routerConnections (router w)).
        b < length (bridge_heap w) \<and> \<not> closed (writeQueue (Node (bridge_heap w ! b))))"

text \<open>The world a run of \<open>route\<close> has reached when it returns or parks.\<close>

fun reached :: "(world, world \<times> parked) outcome \<Rightarrow> world option" where
  "reached (Done w) = Some w"
| "reached (Blocked (w, pk)) = Some w"
| "reached (Panic f) = None"

text \<open>The same world with the filter map of every bridge's node replaced.\<close>

definition refilter :: "(string \<rightharpoonup> bool) \<Rightarrow> world \<Rightarrow> world" where
  "refilter F w =
     w\<lparr>bridge_heap := map (\<lambda>br. br\<lparr>Node := (Node br)\<lparr>filters := F\<rparr>\<rparr>) (bridge_heap w)\<rparr>"

text \<open>One rewritten message, and the queue-level effect of the two kinds of send.\<close>

definition rewritten :: "Message \<Rightarrow> string \<Rightarrow> Message" where
  "rewritten message newHeader = \<lparr>Header = newHeader, Body = Body message\<rparr>"

definition offer :: "Message \<Rightarrow> Message chan \<Rightarrow> Message chan" where
  "offer msg c =
     (if length (buf c) < cap c then c\<lparr>buf := buf c @ [msg]\<rparr> else c\<lparr>closed := True\<rparr>)"

definition push :: "Message \<Rightarrow> RouterBridge \<Rightarrow> RouterBridge" where
  "push msg br =
     br\<lparr>Node := (Node br)
          \<lparr>writeQueue := (writeQueue (Node br))\<lparr>buf := buf (writeQueue (Node br)) @ [msg]\<rparr>\<rparr>\<rparr>"

definition has_room :: "world \<Rightarrow> bridge_ref \<Rightarrow> bool" where
  "has_room w b \<longleftrightarrow>
     length (buf (writeQueue (Node (bridge_heap w ! b)))) < cap (writeQueue (Node (bridge_heap w ! b)))"

text \<open>
  The world after the subscription loop of \<open>route\<close> for one message, and after the
  bridge loop has served the bridges \<open>bs\<close>, both in closed form.
\<close>

definition after_subs :: "Message \<Rightarrow> world \<Rightarrow> world" where
  "after_subs msg w =
     w\<lparr>sub_heap :=
         map (\<lambda>i. if i \<in> set (subscriptions (router w))
                   then (sub_heap w ! i)\<lparr>send := offer msg (send (sub_heap w ! i))\<rparr>
                   else sub_heap w ! i) [0..<length (sub_heap w)],
       router := (router w)
         \<lparr>subscriptions :=
            filter (\<lambda>q. length (buf (send (sub_heap w ! q))) < cap (send (sub_heap w ! q)))
              (subscriptions (router w))\<rparr>\<rparr>"

definition after_bridges :: "Message \<Rightarrow> bridge_ref list \<Rightarrow> world \<Rightarrow> world" where
  "after_bridges msg bs w =
     w\<lparr>bridge_heap :=
         map (\<lambda>i. if i \<in> set bs then push msg (bridge_heap w ! i) else bridge_heap w ! i)
           [0..<length (bridge_heap w)]\<rparr>"

text \<open>
  A parked \<open>route\<close> has only live bridges left to serve; the invariant of the loop
  in either of its two states.
\<close>

fun parked_ok :: "world \<Rightarrow> parked \<Rightarrow> bool" where
  "parked_ok w (Parked msg bs hs) \<longleftrightarrow>
     distinct bs \<and> set bs \<subseteq> set (routerConnections (router w))"

fun cfg_inv :: "cfg \<Rightarrow> bool" where
  "cfg_inv (Running w) \<longleftrightarrow> router_inv w"
| "cfg_inv (Stalled w pk) \<longleftrightarrow> router_inv w \<and> parked_ok w pk"

text \<open>A change of the world applied to the world an outcome holds.\<close>

fun on_world ::
  "(world \<Rightarrow> world) \<Rightarrow> (world, world \<times> 'b) outcome \<Rightarrow> (world, world \<times> 'b) outcome" where
  "on_world f (Done w) = Done (f w)"
| "on_world f (Blocked (w, x)) = Blocked (f w, x)"
| "on_world f (Panic e) = Panic e"

section \<open>A dispatch that waits\<close>

text \<open>
  To follow one dispatch through the steps of the goroutines around it: the world of
  a state of the loop, the queue of a subscription and of a bridge, and the messages
  the dispatch has still to send when it is parked: to every live subscription the
  rewritten messages for the output headers still to do, and to a bridge moreover
  the message in progress when the bridge has not been served with it yet.
\<close>

fun world_of :: "cfg \<Rightarrow> world" where
  "world_of (Running w) = w"
| "world_of (Stalled w pk) = w"

definition sub_queue :: "world \<Rightarrow> sub_ref \<Rightarrow> Message list" where
  "sub_queue w p = buf (send (sub_heap w ! p))"

definition bridge_queue :: "world \<Rightarrow> bridge_ref \<Rightarrow> Message list" where
  "bridge_queue w b = buf (writeQueue (Node (bridge_heap w ! b)))"

fun pending :: "cfg \<Rightarrow> Message list" where
  "pending (Running w) = []"
| "pending (Stalled w (Parked msg bs hs)) = map (rewritten msg) hs"

fun owed :: "bridge_ref \<Rightarrow> cfg \<Rightarrow> Message list" where
  "owed b (Running w) = []"
| "owed b (Stalled w (Parked msg bs hs)) =
     (if b \<in> set bs then [msg] else []) @ map (rewritten msg) hs"

fun is_deliver :: "action \<Rightarrow> bool" where
  "is_deliver (Deliver message) = True"
| "is_deliver a = False"

text \<open>
  What the writer pump of subscription \<open>p\<close>, and of the node of bridge \<open>b\<close>, takes
  from its queue in one step, and in all the steps of a run.
\<close>

definition sub_takes :: "sub_ref \<Rightarrow> action \<Rightarrow> cfg \<Rightarrow> Message list" where
  "sub_takes p a c =
     (case a of
        SubWriter q \<Rightarrow>
          if q = p \<and> p < length (sub_heap (world_of c)) then take 1 (sub_queue (world_of c) p)
          else []
      | _ \<Rightarrow> [])"

definition node_takes :: "bridge_ref \<Rightarrow> action \<Rightarrow> cfg \<Rightarrow> Message list" where
  "node_takes b a c =
     (case a of
        NodeWriter q \<Rightarrow>
          if q = b \<and> b < length (bridge_heap (world_of c))
          then take 1 (bridge_queue (world_of c) b)
          else []
      | _ \<Rightarrow> [])"

fun sub_taken :: "sub_ref \<Rightarrow> action list \<Rightarrow> cfg \<Rightarrow> Message list" where
  "sub_taken p [] c = []"
| "sub_taken p (a # as) c =
     sub_takes p a c @ (case exec a c of Inl f \<Rightarrow> [] | Inr c' \<Rightarrow> sub_taken p as c')"

fun bridge_taken :: "bridge_ref \<Rightarrow> action list \<Rightarrow> cfg \<Rightarrow> Message list" where
  "bridge_taken b [] c = []"
| "bridge_taken b (a # as) c =
     node_takes b a c @ (case exec a c of Inl f \<Rightarrow> [] | Inr c' \<Rightarrow> bridge_taken b as c')"

section \<open>Worlds used as examples\<close>

text \<open>
  A router with the table \<open>a \<mapsto> [b, c]\<close>, two live subscriptions (the first with an
  empty send queue, the second with room for one more message) and one bridge; a
  router with the table \<open>a \<mapsto> [b, c]\<close>, one live subscription with an empty queue
  and one bridge with a full write queue; and a
  router with the table \<open>a \<mapsto> [b]\<close> whose only live subscription has a full queue.
\<close>

definition old_message :: Message where
  "old_message = \<lparr>Header = ''old'', Body = []\<rparr>"

definition example_world :: world where
  "example_world =
     \<lparr>router = NewRouter
        \<lparr>subscriptions := [0, 1],
         routingTable := [''a'' \<mapsto> [''b'', ''c'']],
         routerConnections := [0]\<rparr>,
      sub_heap =
        [\<lparr>send = make_chan 1024\<rparr>,
         \<lparr>send = \<lparr>buf = replicate 1023 old_message, cap = 1024, closed = False\<rparr>\<rparr>],
      bridge_heap = [\<lparr>Node = NewNode ''peer:7100'' [''a''], Router = 0\<rparr>]\<rparr>"

definition waiting_world :: world where
  "waiting_world =
     \<lparr>router = NewRouter
        \<lparr>subscriptions := [0],
         routingTable := [''a'' \<mapsto> [''b'', ''c'']],
         routerConnections := [0]\<rparr>,
      sub_heap = [\<lparr>send = make_chan 1024\<rparr>],
      bridge_heap =
        [\<lparr>Node = (NewNode ''peer:7100'' [''a''])
            \<lparr>writeQueue :=
               \<lparr>buf = old_message # old_message # replicate 4094 old_message,
                cap = 4096, closed = False\<rparr>\<rparr>,
          Router = 0\<rparr>]\<rparr>"

definition full_world :: world where
  "full_world =
     \<lparr>router = NewRouter
        \<lparr>subscriptions := [0],
         routingTable := [''a'' \<mapsto> [''b'']]\<rparr>,
      sub_heap = [\<lparr>send = \<lparr>buf = replicate 1024 old_message, cap = 1024, closed = False\<rparr>\<rparr>],
      bridge_heap = []\<rparr>"

section \<open>Keepalive periods\<close>

text \<open>
  C9. The ticker of the subscription's writer has period \<open>pingPeriod\<close>, which is half
  of \<open>pongWait\<close>: 30 seconds for the 60 seconds after which the subscription's reader
  gives up, so strictly less. The node's reader sets its read deadline 90 seconds
  ahead, strictly more than the 30 seconds between two pings of the remote router.
\<close>

theorem keepalive_periods:
  "period Subscription_writePump_ticker = pingPeriod
   \<and> 2 * pingPeriod = pongWait
   \<and> pingPeriod = 30 * Second
   \<and> pongWait = 60 * Second
   \<and> readDeadline (Subscription_readPump_deadline now c) = Some (now + 60 * Second)
   \<and> period Subscription_writePump_ticker < pongWait
   \<and> readDeadline (Node_readPump_deadline now c) = Some (now + 90 * Second)
   \<and> period Subscription_writePump_ticker < pingWait"
  by (simp add: Subscription_writePump_ticker_def NewTicker_def pingPeriod_def pongWait_def
      pingWait_def Second_def Subscription_readPump_deadline_def Node_readPump_deadline_def
      SetReadDeadline_def)

section \<open>Connecting a peer link\<close>

lemma dom_filters_foldl:
  "dom (foldl (\<lambda>m f. m(f \<mapsto> True)) m0 fs) = dom m0 \<union> set fs"
  by (induction fs arbitrary: m0) auto

lemma filters_NewNode: "dom (filters (NewNode name fs)) = set fs"
  by (simp add: NewNode_def dom_filters_foldl)

lemma ConnectToRouter_NewNode_fail:
  "ConnectToRouter a (Inl e) (NewNode nm fs) =
     Done ((NewNode nm fs)\<lparr>routerAddress := a,
              readDone := \<lparr>buf = [True], cap = 1, closed = False\<rparr>,
              writeDone := \<lparr>buf = [True], cap = 1, closed = False\<rparr>\<rparr>,
           [Dial (''ws://'' @ a @ ''/subscribe''), Go RetryConnection],
           Some (''failed to open connection to router '' @ a @ ''. retrying connection...''))"
  by (simp add: ConnectToRouter_def openConnection_def chan_send_def NewNode_def make_chan_def
      dial_url_def)

lemma ConnectToRouter_NewNode_ok:
  "ConnectToRouter a (Inr c) (NewNode nm fs) =
     Done ((NewNode nm fs)\<lparr>routerAddress := a, conn := Some c, state := ''good''\<rparr>,
           [Dial (''ws://'' @ a @ ''/subscribe''), Go ReadPump, Go WritePump], None)"
  by (simp add: ConnectToRouter_def openConnection_def dial_url_def)

text \<open>
  C8. \<open>StartBridge\<close> always returns a bridge (never \<^verbatim>\<open>nil\<close>), also when the
  dial fails. The node of the bridge is the one \<open>ConnectToRouter\<close> leaves behind on
  a new node named after the address, with the address as router address and exactly
  the given filters as keys of its filter map. The error returned is the one
  \<open>ConnectToRouter\<close> returns: none when the dial succeeds, and otherwise its
  \<open>failed to open connection\<close> error.
\<close>

theorem StartBridge_returns_bridge:
  "\<exists>n effs err.
      StartBridge address fs rt d = Done (Some \<lparr>Node = n, Router = rt\<rparr>, effs, err)
    \<and> ConnectToRouter address d (NewNode address fs) = Done (n, effs, err)
    \<and> Name n = address \<and> routerAddress n = address \<and> dom (filters n) = set fs
    \<and> (case d of
          Inr c \<Rightarrow> err = None
        | Inl e \<Rightarrow> err = Some (''failed to open connection to router '' @ address
                               @ ''. retrying connection...''))"
proof (cases d)
  case (Inl e)
  show ?thesis
    unfolding Inl StartBridge_def Let_def
    by (simp add: ConnectToRouter_NewNode_fail filters_NewNode) (simp add: NewNode_def)
next
  case (Inr c)
  show ?thesis
    unfolding Inr StartBridge_def Let_def
    by (simp add: ConnectToRouter_NewNode_ok filters_NewNode) (simp add: NewNode_def)
qed

theorem StartBridge_returns_bridge_witness:
  "\<exists>n effs err.
      StartBridge ''peer:7100'' [''a''] 0 (Inl ''refused'')
        = Done (Some \<lparr>Node = n, Router = 0\<rparr>, effs, err)
    \<and> dom (filters n) = {''a''}
    \<and> err = Some ''failed to open connection to router peer:7100. retrying connection...''"
  using StartBridge_returns_bridge [of "''peer:7100''" "[''a'']" 0 "Inl ''refused''"]
  by auto

text \<open>
  C7, as amended. On a node with room in both done channels (every new node),
  \<open>ConnectToRouter\<close> returns an error exactly when the dial fails. On success the
  state is \<open>good\<close>, the connection is stored and both pumps are started. On failure it
  posts both done tokens, starts \<open>retryConnection\<close> in a goroutine and returns the
  error; the state is left as it was, and it is the first statement of the started
  \<open>retryConnection\<close> that appends \<open>retrying\<close> to it.
\<close>

theorem ConnectToRouter_result:
  assumes "\<not> closed (readDone n)" and "length (buf (readDone n)) < cap (readDone n)"
    and "\<not> closed (writeDone n)" and "length (buf (writeDone n)) < cap (writeDone n)"
  shows "ConnectToRouter address d n =
      (case d of
         Inr c \<Rightarrow>
           Done (n\<lparr>routerAddress := address, conn := Some c, state := ''good''\<rparr>,
                 [Dial (''ws://'' @ address @ ''/subscribe''), Go ReadPump, Go WritePump], None)
       | Inl e \<Rightarrow>
           Done (n\<lparr>routerAddress := address,
                   readDone := (readDone n)\<lparr>buf := buf (readDone n) @ [True]\<rparr>,
                   writeDone := (writeDone n)\<lparr>buf := buf (writeDone n) @ [True]\<rparr>\<rparr>,
                 [Dial (''ws://'' @ address @ ''/subscribe''), Go RetryConnection],
                 Some (''failed to open connection to router '' @ address
                       @ ''. retrying connection...'')))
    \<and> (\<exists>n' effs err. ConnectToRouter address d n = Done (n', effs, err)
          \<and> (err \<noteq> None \<longleftrightarrow> (\<exists>e. d = Inl e))
          \<and> (err \<noteq> None \<longrightarrow> state n' = state n \<and> Go RetryConnection \<in> set effs
                \<and> state (mark_retrying n') = state n @ '' retrying''))"
  using assms
  by (cases d)
    (simp_all add: ConnectToRouter_def openConnection_def chan_send_def dial_url_def
      mark_retrying_def)

theorem ConnectToRouter_result_witness:
  "ConnectToRouter ''peer:7100'' (Inr \<lparr>remote = ''peer:7100'', readDeadline = None, conn_closed = False\<rparr>)
     (NewNode ''peer:7100'' [''a''])
   = Done ((NewNode ''peer:7100'' [''a''])
        \<lparr>routerAddress := ''peer:7100'',
         conn := Some \<lparr>remote = ''peer:7100'', readDeadline = None, conn_closed = False\<rparr>,
         state := ''good''\<rparr>,
      [Dial ''ws://peer:7100/subscribe'', Go ReadPump, Go WritePump], None)"
  using ConnectToRouter_result
    [of "NewNode ''peer:7100'' [''a'']" "''peer:7100''"
        "Inr \<lparr>remote = ''peer:7100'', readDeadline = None, conn_closed = False\<rparr>"]
  by (simp add: NewNode_def make_chan_def)

text \<open>
  C7 as stated fails: when the dial of a new node fails, \<open>ConnectToRouter\<close> returns
  its error with the state still \<open>standby\<close>.
\<close>

theorem ConnectToRouter_failure_counterexample:
  "ConnectToRouter ''peer:7100'' (Inl ''refused'') (NewNode ''peer:7100'' [''a''])
   = Done ((NewNode ''peer:7100'' [''a''])
        \<lparr>routerAddress := ''peer:7100'',
         readDone := \<lparr>buf = [True], cap = 1, closed = False\<rparr>,
         writeDone := \<lparr>buf = [True], cap = 1, closed = False\<rparr>\<rparr>,
      [Dial ''ws://peer:7100/subscribe'', Go RetryConnection],
      Some ''failed to open connection to router peer:7100. retrying connection...'')
   \<and> state ((NewNode ''peer:7100'' [''a''])
        \<lparr>routerAddress := ''peer:7100'',
         readDone := \<lparr>buf = [True], cap = 1, closed = False\<rparr>,
         writeDone := \<lparr>buf = [True], cap = 1, closed = False\<rparr>\<rparr>) = ''standby''"
  by (simp add: ConnectToRouter_NewNode_fail) (simp add: NewNode_def)

section \<open>The retry procedure\<close>

lemma openConnection_Inl [simp]:
  "fst (openConnection (Inl e) n) = n" "snd (openConnection (Inl e) n) \<noteq> None"
  by (simp_all add: openConnection_def)

lemma openConnection_Inr [simp]:
  "openConnection (Inr c) n = (n\<lparr>conn := Some c\<rparr>, None)"
  by (simp add: openConnection_def)

lemma retry_loop_None [simp]: "retry_loop dial i None n tr = Some (n, tr)"
  by (subst retry_loop.simps) simp

lemma retry_loop_succeeds:
  "\<forall>j<k. \<exists>e. dial (i + j) = Inl e \<Longrightarrow> dial (i + k) = Inr c \<Longrightarrow>
   retry_loop dial i (Some e0) n tr =
     Some (n\<lparr>conn := Some c\<rparr>,
           tr @ concat (replicate (Suc k) [Sleep retryInterval, Dial (dial_url n)]))"
proof (induction k arbitrary: i e0 tr)
  case 0
  then show ?case by (subst retry_loop.simps) simp
next
  case (Suc k)
  from Suc.prems(1) obtain e where e: "dial i = Inl e" by force
  obtain e1 where e1: "snd (openConnection (Inl e) n) = Some e1"
    by (simp add: openConnection_def)
  have "\<forall>j<k. \<exists>e. dial (Suc i + j) = Inl e"
    using Suc.prems(1) by (metis Suc_less_eq add_Suc_shift)
  moreover have "dial (Suc i + k) = Inr c" using Suc.prems(2) by simp
  ultimately have "retry_loop dial (Suc i) (Some e1) n (tr @ [Sleep retryInterval, Dial (dial_url n)]) =
     Some (n\<lparr>conn := Some c\<rparr>,
           (tr @ [Sleep retryInterval, Dial (dial_url n)])
             @ concat (replicate (Suc k) [Sleep retryInterval, Dial (dial_url n)]))"
    by (rule Suc.IH)
  then show ?case
    by (subst retry_loop.simps) (simp add: e e1)
qed

lemma retry_loop_never:
  assumes fails: "\<forall>j. \<exists>e. dial j = Inl e"
  shows "retry_loop dial i (Some e0) n tr = None"
proof (rule ccontr)
  assume "retry_loop dial i (Some e0) n tr \<noteq> None"
  then obtain y where "retry_loop dial i (Some e0) n tr = Some y" by auto
  then have "(\<forall>j. \<exists>e. dial j = Inl e) \<longrightarrow> Some e0 \<noteq> None \<longrightarrow> False"
  proof (rule retry_loop.raw_induct
      [rotated, where P = "\<lambda>dial i err n tr y. (\<forall>j. \<exists>e. dial j = Inl e) \<longrightarrow> err \<noteq> None \<longrightarrow> False"])
    fix rl :: "(nat \<Rightarrow> dial_result) \<Rightarrow> nat \<Rightarrow> string option \<Rightarrow> Node \<Rightarrow> effect list
        \<Rightarrow> (Node \<times> effect list) option"
      and dial i err n tr y
    assume IH: "\<And>dial i err n tr y. rl dial i err n tr = Some y \<Longrightarrow>
        (\<forall>j. \<exists>e. dial j = Inl e) \<longrightarrow> err \<noteq> None \<longrightarrow> False"
      and body: "(case err of None \<Rightarrow> Some (n, tr)
         | Some e \<Rightarrow> rl dial (Suc i) (snd (openConnection (dial i) n))
             (fst (openConnection (dial i) n)) (tr @ [Sleep retryInterval, Dial (dial_url n)])) = Some y"
    show "(\<forall>j. \<exists>e. dial j = Inl e) \<longrightarrow> err \<noteq> None \<longrightarrow> False"
    proof (intro impI)
      assume all: "\<forall>j. \<exists>e. dial j = Inl e" and "err \<noteq> None"
      then obtain e where "err = Some e" by auto
      with body have call: "rl dial (Suc i) (snd (openConnection (dial i) n))
             (fst (openConnection (dial i) n)) (tr @ [Sleep retryInterval, Dial (dial_url n)]) = Some y"
        by simp
      from all obtain e' where "dial i = Inl e'" by blast
      then have "snd (openConnection (dial i) n) \<noteq> None" by simp
      with IH [OF call] all show False by blast
    qed
  qed
  with fails show False by simp
qed

text \<open>
  C3. With both done tokens posted, \<open>retryConnection\<close> takes them and dials; while
  the dials fail it sleeps 3 seconds (\<open>retryInterval\<close>) before each further attempt;
  when the \<open>k\<close>-th further attempt is the first to succeed it has slept \<open>k\<close> times,
  the state is \<open>good\<close>, the connection is stored and both pumps are started. With
  dials that never succeed it never returns. While a done token is missing it is
  parked before its first dial.
\<close>

theorem retryConnection_retries:
  "(buf (readDone n) \<noteq> [] \<and> buf (writeDone n) \<noteq> []
      \<and> (\<forall>j<k. \<exists>e. dial j = Inl e) \<and> dial k = Inr c \<longrightarrow>
      retryConnection dial n =
        Some (Done (n\<lparr>state := ''good'', conn := Some c,
                      readDone := (readDone n)\<lparr>buf := tl (buf (readDone n))\<rparr>,
                      writeDone := (writeDone n)\<lparr>buf := tl (buf (writeDone n))\<rparr>\<rparr>,
                    Dial (dial_url n) # concat (replicate k [Sleep (3 * Second), Dial (dial_url n)])
                      @ [Go ReadPump, Go WritePump])))
   \<and> (buf (readDone n) \<noteq> [] \<and> buf (writeDone n) \<noteq> [] \<and> (\<forall>j. \<exists>e. dial j = Inl e) \<longrightarrow>
      retryConnection dial n = None)
   \<and> (buf (readDone n) = [] \<and> \<not> closed (readDone n) \<longrightarrow>
      retryConnection dial n = Some (Blocked (mark_retrying n)))
   \<and> (buf (readDone n) \<noteq> [] \<and> buf (writeDone n) = [] \<and> \<not> closed (writeDone n) \<longrightarrow>
      retryConnection dial n =
        Some (Blocked ((mark_retrying n)\<lparr>readDone := (readDone n)\<lparr>buf := tl (buf (readDone n))\<rparr>\<rparr>)))"
proof (intro conjI impI)
  assume a: "buf (readDone n) \<noteq> [] \<and> buf (writeDone n) \<noteq> []
      \<and> (\<forall>j<k. \<exists>e. dial j = Inl e) \<and> dial k = Inr c"
  then obtain r rs w ws where r: "buf (readDone n) = r # rs" and w: "buf (writeDone n) = w # ws"
    by (auto simp: neq_Nil_conv)
  show "retryConnection dial n =
        Some (Done (n\<lparr>state := ''good'', conn := Some c,
                      readDone := (readDone n)\<lparr>buf := tl (buf (readDone n))\<rparr>,
                      writeDone := (writeDone n)\<lparr>buf := tl (buf (writeDone n))\<rparr>\<rparr>,
                    Dial (dial_url n) # concat (replicate k [Sleep (3 * Second), Dial (dial_url n)])
                      @ [Go ReadPump, Go WritePump]))"
  proof (cases k)
    case 0
    with a have "dial 0 = Inr c" by simp
    then show ?thesis
      by (simp add: retryConnection_def mark_retrying_def chan_recv_def r w 0 dial_url_def)
  next
    case (Suc k')
    with a obtain e where e: "dial 0 = Inl e" by auto
    obtain e1 where e1: "\<And>m. snd (openConnection (Inl e) m) = Some (e1 m)"
      by (simp add: openConnection_def)
    have "\<forall>j<k'. \<exists>e. dial (1 + j) = Inl e" using a Suc by auto
    moreover have "dial (1 + k') = Inr c" using a Suc by simp
    ultimately have "\<And>e0 m tr. retry_loop dial 1 (Some e0) m tr =
       Some (m\<lparr>conn := Some c\<rparr>,
           tr @ concat (replicate (Suc k') [Sleep retryInterval, Dial (dial_url m)]))"
      by (rule retry_loop_succeeds)
    then show ?thesis
      by (simp add: retryConnection_def mark_retrying_def chan_recv_def r w Suc e e1 dial_url_def
          retryInterval_def)
  qed
next
  assume a: "buf (readDone n) \<noteq> [] \<and> buf (writeDone n) \<noteq> [] \<and> (\<forall>j. \<exists>e. dial j = Inl e)"
  then obtain r rs w ws where r: "buf (readDone n) = r # rs" and w: "buf (writeDone n) = w # ws"
    by (auto simp: neq_Nil_conv)
  from a obtain e where e: "dial 0 = Inl e" by blast
  obtain e1 where e1: "\<And>m. snd (openConnection (Inl e) m) = Some (e1 m)"
    by (simp add: openConnection_def)
  have "\<And>e0 m tr. retry_loop dial 1 (Some e0) m tr = None"
    using a by (simp add: retry_loop_never)
  then show "retryConnection dial n = None"
    by (simp add: retryConnection_def mark_retrying_def chan_recv_def r w e e1)
next
  assume "buf (readDone n) = [] \<and> \<not> closed (readDone n)"
  then show "retryConnection dial n = Some (Blocked (mark_retrying n))"
    by (simp add: retryConnection_def mark_retrying_def chan_recv_def)
next
  assume a: "buf (readDone n) \<noteq> [] \<and> buf (writeDone n) = [] \<and> \<not> closed (writeDone n)"
  then obtain r rs where r: "buf (readDone n) = r # rs"
    by (auto simp: neq_Nil_conv)
  with a show "retryConnection dial n =
        Some (Blocked ((mark_retrying n)\<lparr>readDone := (readDone n)\<lparr>buf := tl (buf (readDone n))\<rparr>\<rparr>))"
    by (simp add: retryConnection_def mark_retrying_def chan_recv_def)
qed

theorem retryConnection_retries_witness:
  "retryConnection
     (\<lambda>i. if i < 2 then Inl ''refused''
          else Inr \<lparr>remote = ''peer:7100'', readDeadline = None, conn_closed = False\<rparr>)
     ((NewNode ''peer:7100'' [''a''])
        \<lparr>routerAddress := ''peer:7100'',
         readDone := \<lparr>buf = [True], cap = 1, closed = False\<rparr>,
         writeDone := \<lparr>buf = [True], cap = 1, closed = False\<rparr>\<rparr>)
   = Some (Done ((NewNode ''peer:7100'' [''a''])
        \<lparr>routerAddress := ''peer:7100'',
         conn := Some \<lparr>remote = ''peer:7100'', readDeadline = None, conn_closed = False\<rparr>,
         readDone := \<lparr>buf = [], cap = 1, closed = False\<rparr>,
         writeDone := \<lparr>buf = [], cap = 1, closed = False\<rparr>,
         state := ''good''\<rparr>,
      [Dial ''ws://peer:7100/subscribe'', Sleep 3000000000,
       Dial ''ws://peer:7100/subscribe'', Sleep 3000000000,
       Dial ''ws://peer:7100/subscribe'', Go ReadPump, Go WritePump]))"
  using retryConnection_retries
    [of "(NewNode ''peer:7100'' [''a''])
        \<lparr>routerAddress := ''peer:7100'',
         readDone := \<lparr>buf = [True], cap = 1, closed = False\<rparr>,
         writeDone := \<lparr>buf = [True], cap = 1, closed = False\<rparr>\<rparr>"
        "Suc (Suc 0)"
        "\<lambda>i. if i < 2 then Inl ''refused''
          else Inr \<lparr>remote = ''peer:7100'', readDeadline = None, conn_closed = False\<rparr>"
        "\<lparr>remote = ''peer:7100'', readDeadline = None, conn_closed = False\<rparr>"]
  by (simp add: NewNode_def dial_url_def Second_def make_chan_def)

section \<open>The reader pump of a node\<close>

lemma readPump_loop_all:
  "\<not> closed (readQueue n) \<Longrightarrow>
   length (buf (readQueue n)) + length (filter (\<lambda>m. Header m \<in> dom (filters n)) ms)
     \<le> cap (readQueue n) \<Longrightarrow>
   readPump_loop ms n =
     Done (n\<lparr>readQueue := (readQueue n)
             \<lparr>buf := buf (readQueue n) @ filter (\<lambda>m. Header m \<in> dom (filters n)) ms\<rparr>\<rparr>)"
proof (induction ms arbitrary: n)
  case Nil
  then show ?case by simp
next
  case (Cons m ms)
  show ?case
  proof (cases "filters n (Header m)")
    case None
    then have "Header m \<notin> dom (filters n)" by auto
    with Cons None show ?thesis by simp
  next
    case (Some ok)
    then have mem: "Header m \<in> dom (filters n)" by auto
    let ?n = "n\<lparr>readQueue := (readQueue n)\<lparr>buf := buf (readQueue n) @ [m]\<rparr>\<rparr>"
    from Cons.prems mem have room: "length (buf (readQueue n)) < cap (readQueue n)" by simp
    have "readPump_loop ms ?n =
      Done (?n\<lparr>readQueue := (readQueue ?n)
             \<lparr>buf := buf (readQueue ?n) @ filter (\<lambda>m. Header m \<in> dom (filters ?n)) ms\<rparr>\<rparr>)"
      using Cons.prems mem by (intro Cons.IH) simp_all
    then show ?thesis
      using Cons.prems(1) room Some mem by (simp add: chan_send_def)
  qed
qed

text \<open>
  C6. The keys of a new node's filter map are the configured filters. The reader
  pump's loop sends a decoded message to \<open>readQueue\<close> exactly when its header is
  one of them: while the queue has room, the queue grows by the matching messages, in
  order and unchanged, and nothing else of the node changes. A message that does not
  match is skipped with no effect and the loop goes on; one that matches is appended,
  or, when the queue is full, keeps the pump parked with the message still to send.
\<close>

theorem readPump_filters:
  "dom (filters (NewNode name fs)) = set fs
   \<and> (\<not> closed (readQueue n)
      \<and> length (buf (readQueue n)) + length (filter (\<lambda>m. Header m \<in> dom (filters n)) ms)
          \<le> cap (readQueue n) \<longrightarrow>
      readPump_loop ms n =
        Done (n\<lparr>readQueue := (readQueue n)
             \<lparr>buf := buf (readQueue n) @ filter (\<lambda>m. Header m \<in> dom (filters n)) ms\<rparr>\<rparr>))
   \<and> (Header m \<notin> dom (filters n) \<longrightarrow> readPump_loop (m # ms) n = readPump_loop ms n)
   \<and> (Header m \<in> dom (filters n) \<and> \<not> closed (readQueue n)
      \<and> length (buf (readQueue n)) < cap (readQueue n) \<longrightarrow>
      readPump_loop (m # ms) n =
        readPump_loop ms (n\<lparr>readQueue := (readQueue n)\<lparr>buf := buf (readQueue n) @ [m]\<rparr>\<rparr>))
   \<and> (Header m \<in> dom (filters n) \<and> \<not> closed (readQueue n)
      \<and> cap (readQueue n) \<le> length (buf (readQueue n)) \<longrightarrow>
      readPump_loop (m # ms) n = Blocked (n, m # ms))"
proof (intro conjI impI)
  show "dom (filters (NewNode name fs)) = set fs"
    by (rule filters_NewNode)
next
  assume "\<not> closed (readQueue n)
      \<and> length (buf (readQueue n)) + length (filter (\<lambda>m. Header m \<in> dom (filters n)) ms)
          \<le> cap (readQueue n)"
  then show "readPump_loop ms n =
        Done (n\<lparr>readQueue := (readQueue n)
             \<lparr>buf := buf (readQueue n) @ filter (\<lambda>m. Header m \<in> dom (filters n)) ms\<rparr>\<rparr>)"
    by (simp add: readPump_loop_all)
next
  assume "Header m \<notin> dom (filters n)"
  then have "filters n (Header m) = None" by auto
  then show "readPump_loop (m # ms) n = readPump_loop ms n" by simp
next
  assume a: "Header m \<in> dom (filters n) \<and> \<not> closed (readQueue n)
      \<and> length (buf (readQueue n)) < cap (readQueue n)"
  then obtain ok where "filters n (Header m) = Some ok" by auto
  with a show "readPump_loop (m # ms) n =
        readPump_loop ms (n\<lparr>readQueue := (readQueue n)\<lparr>buf := buf (readQueue n) @ [m]\<rparr>\<rparr>)"
    by (simp add: chan_send_def)
next
  assume a: "Header m \<in> dom (filters n) \<and> \<not> closed (readQueue n)
      \<and> cap (readQueue n) \<le> length (buf (readQueue n))"
  then obtain ok where "filters n (Header m) = Some ok" by auto
  with a show "readPump_loop (m # ms) n = Blocked (n, m # ms)"
    by (simp add: chan_send_def)
qed

theorem readPump_filters_witness:
  "readPump_loop
     [\<lparr>Header = ''a'', Body = [1]\<rparr>, \<lparr>Header = ''x'', Body = [2]\<rparr>, \<lparr>Header = ''b'', Body = [3]\<rparr>]
     (NewNode ''peer:7100'' [''a'', ''b''])
   = Done ((NewNode ''peer:7100'' [''a'', ''b''])
       \<lparr>readQueue := \<lparr>buf = [\<lparr>Header = ''a'', Body = [1]\<rparr>, \<lparr>Header = ''b'', Body = [3]\<rparr>],
                      cap = 4096, closed = False\<rparr>\<rparr>)"
  using readPump_filters
    [of "''peer:7100''" "[''a'', ''b'']" "NewNode ''peer:7100'' [''a'', ''b'']"
        "[\<lparr>Header = ''a'', Body = [1]\<rparr>, \<lparr>Header = ''x'', Body = [2]\<rparr>, \<lparr>Header = ''b'', Body = [3]\<rparr>]"]
  by (simp add: NewNode_def make_chan_def)

section \<open>The loops of route in closed form\<close>

lemma route_sub_eq:
  assumes "p < length (sub_heap w)" and "\<not> closed (send (sub_heap w ! p))"
  shows "route_sub msg p w =
     Inr (w\<lparr>sub_heap := (sub_heap w)[p := (sub_heap w ! p)\<lparr>send := offer msg (send (sub_heap w ! p))\<rparr>],
           router := (router w)\<lparr>subscriptions :=
             (if length (buf (send (sub_heap w ! p))) < cap (send (sub_heap w ! p))
              then subscriptions (router w) else removeAll p (subscriptions (router w)))\<rparr>\<rparr>)"
  using assms
  by (simp add: route_sub_def sub_at_def chan_send_def chan_close_def offer_def)

lemma route_subs_eq:
  "distinct ps \<Longrightarrow>
   \<forall>p\<in>set ps. p < length (sub_heap w) \<and> \<not> closed (send (sub_heap w ! p)) \<Longrightarrow>
   route_subs msg ps w =
     Inr (w\<lparr>sub_heap :=
             map (\<lambda>i. if i \<in> set ps
                       then (sub_heap w ! i)\<lparr>send := offer msg (send (sub_heap w ! i))\<rparr>
                       else sub_heap w ! i) [0..<length (sub_heap w)],
           router := (router w)\<lparr>subscriptions :=
             filter (\<lambda>q. q \<in> set ps \<longrightarrow>
                          length (buf (send (sub_heap w ! q))) < cap (send (sub_heap w ! q)))
               (subscriptions (router w))\<rparr>\<rparr>)"
proof (induction ps arbitrary: w)
  case Nil
  then show ?case by (simp add: map_nth)
next
  case (Cons p ps)
  let ?H = "sub_heap w"
  let ?w1 = "w\<lparr>sub_heap := ?H[p := (?H ! p)\<lparr>send := offer msg (send (?H ! p))\<rparr>],
           router := (router w)\<lparr>subscriptions :=
             (if length (buf (send (?H ! p))) < cap (send (?H ! p))
              then subscriptions (router w) else removeAll p (subscriptions (router w)))\<rparr>\<rparr>"
  from Cons.prems have p: "p < length ?H" "\<not> closed (send (?H ! p))" "p \<notin> set ps" "distinct ps"
    by auto
  have ne: "\<And>x. x \<in> set ps \<Longrightarrow> p \<noteq> x" using p(3) by auto
  have step: "route_sub msg p w = Inr ?w1"
    using p(1,2) by (rule route_sub_eq)
  have "\<forall>q\<in>set ps. q < length (sub_heap ?w1) \<and> \<not> closed (send (sub_heap ?w1 ! q))"
    using Cons.prems ne by auto
  with p(4) have IH: "route_subs msg ps ?w1 =
     Inr (?w1\<lparr>sub_heap :=
             map (\<lambda>i. if i \<in> set ps
                       then (sub_heap ?w1 ! i)\<lparr>send := offer msg (send (sub_heap ?w1 ! i))\<rparr>
                       else sub_heap ?w1 ! i) [0..<length (sub_heap ?w1)],
           router := (router ?w1)\<lparr>subscriptions :=
             filter (\<lambda>q. q \<in> set ps \<longrightarrow>
                          length (buf (send (sub_heap ?w1 ! q))) < cap (send (sub_heap ?w1 ! q)))
               (subscriptions (router ?w1))\<rparr>\<rparr>)"
    by (rule Cons.IH)
  have heap: "map (\<lambda>i. if i \<in> set ps
                       then (sub_heap ?w1 ! i)\<lparr>send := offer msg (send (sub_heap ?w1 ! i))\<rparr>
                       else sub_heap ?w1 ! i) [0..<length (sub_heap ?w1)]
     = map (\<lambda>i. if i \<in> set (p # ps)
                       then (?H ! i)\<lparr>send := offer msg (send (?H ! i))\<rparr>
                       else ?H ! i) [0..<length ?H]"
    using ne p(1) by (auto simp: nth_list_update)
  have subs: "filter (\<lambda>q. q \<in> set ps \<longrightarrow>
                          length (buf (send (sub_heap ?w1 ! q))) < cap (send (sub_heap ?w1 ! q)))
               (subscriptions (router ?w1))
     = filter (\<lambda>q. q \<in> set (p # ps) \<longrightarrow>
                          length (buf (send (?H ! q))) < cap (send (?H ! q)))
               (subscriptions (router w))"
    using ne p(1,3) by (auto simp: nth_list_update removeAll_filter_not_eq intro!: filter_cong)
  show ?case
    unfolding route_subs.simps step sum.case IH heap subs by simp
qed

lemma route_subs_live:
  assumes "router_inv w"
  shows "route_subs msg (subscriptions (router w)) w = Inr (after_subs msg w)"
proof -
  have "filter (\<lambda>q. q \<in> set (subscriptions (router w)) \<longrightarrow>
                          length (buf (send (sub_heap w ! q))) < cap (send (sub_heap w ! q)))
               (subscriptions (router w))
      = filter (\<lambda>q. length (buf (send (sub_heap w ! q))) < cap (send (sub_heap w ! q)))
               (subscriptions (router w))"
    by (rule filter_cong) auto
  then show ?thesis
    using assms route_subs_eq [of "subscriptions (router w)" w msg]
    by (simp add: router_inv_def after_subs_def)
qed

lemma after_subs_simps [simp]:
  "bridge_heap (after_subs msg w) = bridge_heap w"
  "routerConnections (router (after_subs msg w)) = routerConnections (router w)"
  "routingTable (router (after_subs msg w)) = routingTable (router w)"
  "length (sub_heap (after_subs msg w)) = length (sub_heap w)"
  "subscriptions (router (after_subs msg w)) =
     filter (\<lambda>q. length (buf (send (sub_heap w ! q))) < cap (send (sub_heap w ! q)))
       (subscriptions (router w))"
  by (simp_all add: after_subs_def)

lemma after_subs_nth:
  "p < length (sub_heap w) \<Longrightarrow>
   sub_heap (after_subs msg w) ! p =
     (if p \<in> set (subscriptions (router w))
      then (sub_heap w ! p)\<lparr>send := offer msg (send (sub_heap w ! p))\<rparr>
      else sub_heap w ! p)"
  by (simp add: after_subs_def)

lemma after_bridges_simps [simp]:
  "sub_heap (after_bridges msg bs w) = sub_heap w"
  "router (after_bridges msg bs w) = router w"
  "length (bridge_heap (after_bridges msg bs w)) = length (bridge_heap w)"
  by (simp_all add: after_bridges_def)

lemma after_bridges_nth:
  "b < length (bridge_heap w) \<Longrightarrow>
   bridge_heap (after_bridges msg bs w) ! b =
     (if b \<in> set bs then push msg (bridge_heap w ! b) else bridge_heap w ! b)"
  by (simp add: after_bridges_def)

lemma after_bridges_Nil [simp]: "after_bridges msg [] w = w"
  by (simp add: after_bridges_def map_nth)

lemma closed_push [simp]:
  "closed (writeQueue (Node (push msg br))) = closed (writeQueue (Node br))"
  by (simp add: push_def)

lemma inv_after_subs:
  assumes "router_inv w"
  shows "router_inv (after_subs msg w)"
  using assms
  by (auto simp: router_inv_def after_subs_nth offer_def)

lemma inv_after_bridges:
  assumes "router_inv w"
  shows "router_inv (after_bridges msg bs w)"
  using assms
  by (auto simp: router_inv_def after_bridges_nth)

lemma WritePassthrough_eq:
  assumes "b < length (bridge_heap w)" and "\<not> closed (writeQueue (Node (bridge_heap w ! b)))"
  shows "WritePassthrough b msg w =
     (if has_room w b
      then Done (w\<lparr>bridge_heap := (bridge_heap w)[b := push msg (bridge_heap w ! b)]\<rparr>)
      else Blocked ())"
  using assms
  by (simp add: WritePassthrough_def bridge_at_def Write_def chan_send_def has_room_def push_def)

lemma route_bridges_eq:
  "distinct bs \<Longrightarrow>
   \<forall>b\<in>set bs. b < length (bridge_heap w) \<and> \<not> closed (writeQueue (Node (bridge_heap w ! b))) \<Longrightarrow>
   route_bridges msg bs w =
     (if \<forall>b\<in>set bs. has_room w b then Done (after_bridges msg bs w)
      else Blocked (after_bridges msg (takeWhile (has_room w) bs) w, dropWhile (has_room w) bs))"
proof (induction bs arbitrary: w)
  case Nil
  then show ?case by simp
next
  case (Cons b bs)
  let ?B = "bridge_heap w"
  let ?w1 = "w\<lparr>bridge_heap := ?B[b := push msg (?B ! b)]\<rparr>"
  from Cons.prems have b: "b < length ?B" "\<not> closed (writeQueue (Node (?B ! b)))"
    "b \<notin> set bs" "distinct bs"
    by auto
  have ne: "\<And>x. x \<in> set bs \<Longrightarrow> b \<noteq> x" using b(3) by auto
  show ?case
  proof (cases "has_room w b")
    case False
    then show ?thesis
      using b(1,2) by (simp add: WritePassthrough_eq)
  next
    case True
    have room: "\<And>x. x \<in> set bs \<Longrightarrow> has_room ?w1 x = has_room w x"
      using ne by (simp add: has_room_def)
    have "\<forall>x\<in>set bs. x < length (bridge_heap ?w1)
        \<and> \<not> closed (writeQueue (Node (bridge_heap ?w1 ! x)))"
      using Cons.prems ne by auto
    with b(4) have IH: "route_bridges msg bs ?w1 =
     (if \<forall>b\<in>set bs. has_room ?w1 b then Done (after_bridges msg bs ?w1)
      else Blocked (after_bridges msg (takeWhile (has_room ?w1) bs) ?w1,
                    dropWhile (has_room ?w1) bs))"
      by (rule Cons.IH)
    have tw: "takeWhile (has_room ?w1) bs = takeWhile (has_room w) bs"
      by (rule takeWhile_cong) (simp_all add: room)
    have dw: "dropWhile (has_room ?w1) bs = dropWhile (has_room w) bs"
      by (rule dropWhile_cong) (simp_all add: room)
    have ab: "after_bridges msg cs ?w1 = after_bridges msg (b # cs) w"
      if "set cs \<subseteq> set bs" for cs
    proof -
      have ne': "\<And>i. i \<in> set cs \<Longrightarrow> b \<noteq> i" using that ne by auto
      have eq: "map (\<lambda>i. if i \<in> set cs then push msg (?B[b := push msg (?B ! b)] ! i)
                       else ?B[b := push msg (?B ! b)] ! i) [0..<length ?B]
          = map (\<lambda>i. if i \<in> set (b # cs) then push msg (?B ! i) else ?B ! i) [0..<length ?B]"
        using ne' b(1) by (auto simp: nth_list_update)
      show ?thesis by (simp add: after_bridges_def eq del: map_eq_conv cong: if_cong)
    qed
    have sub: "set (takeWhile (has_room w) bs) \<subseteq> set bs"
      by (auto dest: set_takeWhileD)
    show ?thesis
      using True b(1,2) room
      by (simp add: WritePassthrough_eq IH tw dw ab sub)
  qed
qed


text \<open>
  The order in which a \<^verbatim>\<open>range\<close> loop visits the live subscriptions does not
  matter, and neither does the order of the bridges when all of them have room.
\<close>

lemma route_subs_any_order:
  assumes "distinct ps" and "distinct ps'" and "set ps = set ps'"
    and "\<forall>p\<in>set ps. p < length (sub_heap w) \<and> \<not> closed (send (sub_heap w ! p))"
  shows "route_subs msg ps w = route_subs msg ps' w"
proof -
  have "\<forall>p\<in>set ps'. p < length (sub_heap w) \<and> \<not> closed (send (sub_heap w ! p))"
    using assms(3,4) by simp
  from route_subs_eq [OF assms(1,4), of msg] route_subs_eq [OF assms(2) this, of msg]
  show ?thesis using assms(3) by simp
qed

lemma route_bridges_any_order:
  assumes "distinct bs" and "distinct bs'" and "set bs = set bs'"
    and "\<forall>b\<in>set bs. b < length (bridge_heap w)
           \<and> \<not> closed (writeQueue (Node (bridge_heap w ! b))) \<and> has_room w b"
  shows "route_bridges msg bs w = route_bridges msg bs' w"
proof -
  have v: "\<forall>b\<in>set bs. b < length (bridge_heap w)
      \<and> \<not> closed (writeQueue (Node (bridge_heap w ! b)))"
    using assms(4) by simp
  then have v': "\<forall>b\<in>set bs'. b < length (bridge_heap w)
      \<and> \<not> closed (writeQueue (Node (bridge_heap w ! b)))"
    using assms(3) by simp
  have "after_bridges msg bs w = after_bridges msg bs' w"
    using assms(3) by (simp add: after_bridges_def)
  with route_bridges_eq [OF assms(1) v, of msg] route_bridges_eq [OF assms(2) v', of msg]
  show ?thesis using assms(3,4) by simp
qed

lemma has_room_after_subs [simp]: "has_room (after_subs msg w) = has_room w"
  by (rule ext) (simp add: has_room_def)

lemma route_headers_Cons:
  assumes "router_inv w"
  shows "route_headers body (t # ts) w =
     (if \<forall>b\<in>set (routerConnections (router w)). has_room w b
      then route_headers body ts
             (after_bridges \<lparr>Header = t, Body = body\<rparr> (routerConnections (router w))
                (after_subs \<lparr>Header = t, Body = body\<rparr> w))
      else Blocked
             (after_bridges \<lparr>Header = t, Body = body\<rparr>
                (takeWhile (has_room w) (routerConnections (router w)))
                (after_subs \<lparr>Header = t, Body = body\<rparr> w),
              Parked \<lparr>Header = t, Body = body\<rparr>
                (dropWhile (has_room w) (routerConnections (router w))) ts))"
proof -
  let ?msg = "\<lparr>Header = t, Body = body\<rparr>"
  have inv1: "router_inv (after_subs ?msg w)"
    using assms by (rule inv_after_subs)
  have "route_bridges ?msg (routerConnections (router (after_subs ?msg w))) (after_subs ?msg w) =
     (if \<forall>b\<in>set (routerConnections (router (after_subs ?msg w))). has_room (after_subs ?msg w) b
      then Done (after_bridges ?msg (routerConnections (router (after_subs ?msg w))) (after_subs ?msg w))
      else Blocked (after_bridges ?msg
                      (takeWhile (has_room (after_subs ?msg w))
                         (routerConnections (router (after_subs ?msg w)))) (after_subs ?msg w),
                    dropWhile (has_room (after_subs ?msg w))
                      (routerConnections (router (after_subs ?msg w)))))"
    using inv1 by (intro route_bridges_eq) (simp_all add: router_inv_def)
  then show ?thesis
    using assms by (simp add: route_subs_live route_headers.simps(2))
qed

declare route_headers.simps(2) [simp del]

lemma route_headers_Cons_room:
  assumes "router_inv w" and "\<forall>b\<in>set (routerConnections (router w)). has_room w b"
  shows "route_headers body (t # ts) w =
     route_headers body ts
       (after_bridges \<lparr>Header = t, Body = body\<rparr> (routerConnections (router w))
          (after_subs \<lparr>Header = t, Body = body\<rparr> w))"
  unfolding route_headers_Cons [OF assms(1)] by (rule if_P [OF assms(2)])

lemma route_headers_Cons_full:
  assumes "router_inv w" and "\<not> (\<forall>b\<in>set (routerConnections (router w)). has_room w b)"
  shows "route_headers body (t # ts) w =
     Blocked
       (after_bridges \<lparr>Header = t, Body = body\<rparr>
          (takeWhile (has_room w) (routerConnections (router w)))
          (after_subs \<lparr>Header = t, Body = body\<rparr> w),
        Parked \<lparr>Header = t, Body = body\<rparr>
          (dropWhile (has_room w) (routerConnections (router w))) ts)"
  unfolding route_headers_Cons [OF assms(1)] by (rule if_not_P [OF assms(2)])

lemma route_headers_Done_room:
  assumes "router_inv w" and "route_headers body (t # ts) w = Done w'"
  shows "\<forall>b\<in>set (routerConnections (router w)). has_room w b"
proof (rule ccontr)
  assume "\<not> (\<forall>b\<in>set (routerConnections (router w)). has_room w b)"
  from route_headers_Cons_full [OF assms(1) this] assms(2) show False by simp
qed

lemma route_headers_settle:
  "router_inv w \<Longrightarrow> \<exists>c. settle (route_headers body ts w) = Inr c \<and> cfg_inv c"
proof (induction ts arbitrary: w)
  case Nil
  then show ?case by (simp add: settle_def)
next
  case (Cons t ts)
  let ?msg = "\<lparr>Header = t, Body = body\<rparr>"
  let ?R = "routerConnections (router w)"
  show ?case
  proof (cases "\<forall>b\<in>set ?R. has_room w b")
    case True
    have "router_inv (after_bridges ?msg ?R (after_subs ?msg w))"
      using Cons.prems by (intro inv_after_bridges inv_after_subs)
    from Cons.IH [OF this] show ?thesis
      by (simp add: route_headers_Cons_room [OF Cons.prems True])
  next
    case False
    have "router_inv (after_bridges ?msg (takeWhile (has_room w) ?R) (after_subs ?msg w))"
      using Cons.prems by (intro inv_after_bridges inv_after_subs)
    moreover have "distinct (dropWhile (has_room w) ?R)"
      using Cons.prems by (simp add: router_inv_def)
    moreover have "set (dropWhile (has_room w) ?R) \<subseteq> set ?R"
      by (auto dest: set_dropWhileD)
    ultimately show ?thesis
      by (simp add: route_headers_Cons_full [OF Cons.prems False] settle_def)
  qed
qed

lemma route_headers_frame:
  "router_inv w \<Longrightarrow> reached (route_headers body ts w) = Some w' \<Longrightarrow>
     routerConnections (router w') = routerConnections (router w)
   \<and> routingTable (router w') = routingTable (router w)
   \<and> length (sub_heap w') = length (sub_heap w)
   \<and> length (bridge_heap w') = length (bridge_heap w)
   \<and> set (subscriptions (router w')) \<subseteq> set (subscriptions (router w))
   \<and> (\<forall>p. p \<notin> set (subscriptions (router w)) \<longrightarrow> p < length (sub_heap w) \<longrightarrow>
          sub_heap w' ! p = sub_heap w ! p)"
proof (induction ts arbitrary: w)
  case Nil
  then show ?case by simp
next
  case (Cons t ts)
  let ?msg = "\<lparr>Header = t, Body = body\<rparr>"
  let ?R = "routerConnections (router w)"
  show ?case
  proof (cases "\<forall>b\<in>set ?R. has_room w b")
    case True
    let ?w2 = "after_bridges ?msg ?R (after_subs ?msg w)"
    have inv2: "router_inv ?w2"
      using Cons.prems(1) by (intro inv_after_bridges inv_after_subs)
    have "reached (route_headers body ts ?w2) = Some w'"
      using Cons.prems(2) by (simp add: route_headers_Cons_room [OF Cons.prems(1) True])
    from Cons.IH [OF inv2 this] show ?thesis
      by (auto simp: after_subs_nth)
  next
    case False
    have "w' = after_bridges ?msg (takeWhile (has_room w) ?R) (after_subs ?msg w)"
      using Cons.prems(2) by (simp add: route_headers_Cons_full [OF Cons.prems(1) False])
    then show ?thesis
      by (auto simp: after_subs_nth)
  qed
qed

lemma route_headers_Done_bridge:
  "router_inv w \<Longrightarrow> route_headers body ts w = Done w' \<Longrightarrow>
   b \<in> set (routerConnections (router w)) \<Longrightarrow>
   bridge_heap w' ! b =
     (bridge_heap w ! b)\<lparr>Node := (Node (bridge_heap w ! b))
        \<lparr>writeQueue := (writeQueue (Node (bridge_heap w ! b)))
           \<lparr>buf := buf (writeQueue (Node (bridge_heap w ! b)))
                    @ map (\<lambda>t. \<lparr>Header = t, Body = body\<rparr>) ts\<rparr>\<rparr>\<rparr>"
proof (induction ts arbitrary: w)
  case Nil
  then show ?case by simp
next
  case (Cons t ts)
  let ?msg = "\<lparr>Header = t, Body = body\<rparr>"
  let ?R = "routerConnections (router w)"
  let ?w2 = "after_bridges ?msg ?R (after_subs ?msg w)"
  have all: "\<forall>b\<in>set ?R. has_room w b"
    using Cons.prems(1,2) by (rule route_headers_Done_room)
  have inv2: "router_inv ?w2"
    using Cons.prems(1) by (intro inv_after_bridges inv_after_subs)
  have run: "route_headers body ts ?w2 = Done w'"
    using Cons.prems(2) by (simp add: route_headers_Cons_room [OF Cons.prems(1) all])
  have b: "b < length (bridge_heap w)"
    using Cons.prems(1,3) by (simp add: router_inv_def)
  have "b \<in> set (routerConnections (router ?w2))"
    using Cons.prems(3) by simp
  from Cons.IH [OF inv2 run this] show ?case
    using b Cons.prems(3) by (simp add: after_bridges_nth push_def)
qed

lemma route_headers_Done_sub:
  "router_inv w \<Longrightarrow> route_headers body ts w = Done w' \<Longrightarrow>
   p \<in> set (subscriptions (router w)) \<Longrightarrow>
   sub_heap w' ! p =
     (sub_heap w ! p)\<lparr>send := (send (sub_heap w ! p))
        \<lparr>buf := buf (send (sub_heap w ! p))
                 @ map (\<lambda>t. \<lparr>Header = t, Body = body\<rparr>)
                     (take (cap (send (sub_heap w ! p)) - length (buf (send (sub_heap w ! p)))) ts),
         closed := cap (send (sub_heap w ! p)) - length (buf (send (sub_heap w ! p))) < length ts\<rparr>\<rparr>
   \<and> (p \<in> set (subscriptions (router w')) \<longleftrightarrow>
        length ts \<le> cap (send (sub_heap w ! p)) - length (buf (send (sub_heap w ! p))))"
proof (induction ts arbitrary: w)
  case Nil
  then show ?case by (simp add: router_inv_def)
next
  case (Cons t ts)
  let ?msg = "\<lparr>Header = t, Body = body\<rparr>"
  let ?R = "routerConnections (router w)"
  let ?w2 = "after_bridges ?msg ?R (after_subs ?msg w)"
  let ?c = "send (sub_heap w ! p)"
  have all: "\<forall>b\<in>set ?R. has_room w b"
    using Cons.prems(1,2) by (rule route_headers_Done_room)
  have inv2: "router_inv ?w2"
    using Cons.prems(1) by (intro inv_after_bridges inv_after_subs)
  have run: "route_headers body ts ?w2 = Done w'"
    using Cons.prems(2) by (simp add: route_headers_Cons_room [OF Cons.prems(1) all])
  have p: "p < length (sub_heap w)" "\<not> closed ?c"
    using Cons.prems(1,3) by (simp_all add: router_inv_def)
  show ?case
  proof (cases "length (buf ?c) < cap ?c")
    case True
    then have "p \<in> set (subscriptions (router ?w2))"
      using Cons.prems(3) by simp
    from Cons.IH [OF inv2 run this] show ?thesis
      using True p Cons.prems(3)
      by (auto simp: after_subs_nth offer_def take_Cons')
  next
    case False
    then have out: "p \<notin> set (subscriptions (router ?w2))" by simp
    have "reached (route_headers body ts ?w2) = Some w'" using run by simp
    from route_headers_frame [OF inv2 this] out p(1)
    have "sub_heap w' ! p = sub_heap ?w2 ! p" and "p \<notin> set (subscriptions (router w'))"
      by auto
    then show ?thesis
      using False p Cons.prems(3) by (simp add: after_subs_nth offer_def)
  qed
qed

lemma route_headers_progress:
  "router_inv w \<Longrightarrow>
   \<forall>b\<in>set (routerConnections (router w)).
      length (buf (writeQueue (Node (bridge_heap w ! b)))) + length ts
        \<le> cap (writeQueue (Node (bridge_heap w ! b))) \<Longrightarrow>
   \<exists>w'. route_headers body ts w = Done w'"
proof (induction ts arbitrary: w)
  case Nil
  then show ?case by simp
next
  case (Cons t ts)
  let ?msg = "\<lparr>Header = t, Body = body\<rparr>"
  let ?R = "routerConnections (router w)"
  let ?w2 = "after_bridges ?msg ?R (after_subs ?msg w)"
  have all: "\<forall>b\<in>set ?R. has_room w b"
    using Cons.prems(2) by (auto simp: has_room_def)
  have inv2: "router_inv ?w2"
    using Cons.prems(1) by (intro inv_after_bridges inv_after_subs)
  have "\<forall>b\<in>set (routerConnections (router ?w2)).
      length (buf (writeQueue (Node (bridge_heap ?w2 ! b)))) + length ts
        \<le> cap (writeQueue (Node (bridge_heap ?w2 ! b)))"
    using Cons.prems by (auto simp: after_bridges_nth router_inv_def push_def)
  from Cons.IH [OF inv2 this] show ?case
    by (simp add: route_headers_Cons_room [OF Cons.prems(1) all])
qed

section \<open>Dispatch\<close>

lemma route_Some:
  "routingTable (router w) (Header message) = Some outs \<Longrightarrow>
   route message w = route_headers (Body message) outs w"
  by (simp add: route_def)

lemma route_headers_full_sub:
  assumes inv: "router_inv w" and p: "p \<in> set (subscriptions (router w))"
    and full: "\<not> length (buf (send (sub_heap w ! p))) < cap (send (sub_heap w ! p))"
    and r: "reached (route_headers body (t # ts) w) = Some w'"
  shows "p \<notin> set (subscriptions (router w'))
       \<and> sub_heap w' ! p = (sub_heap w ! p)\<lparr>send := (send (sub_heap w ! p))\<lparr>closed := True\<rparr>\<rparr>"
proof -
  let ?msg = "\<lparr>Header = t, Body = body\<rparr>"
  let ?R = "routerConnections (router w)"
  have plen: "p < length (sub_heap w)" using inv p by (simp add: router_inv_def)
  show ?thesis
  proof (cases "\<forall>b\<in>set ?R. has_room w b")
    case True
    let ?w2 = "after_bridges ?msg ?R (after_subs ?msg w)"
    have inv2: "router_inv ?w2"
      using inv by (intro inv_after_bridges inv_after_subs)
    have r2: "reached (route_headers body ts ?w2) = Some w'"
      using r by (simp add: route_headers_Cons_room [OF inv True])
    have out: "p \<notin> set (subscriptions (router ?w2))" using full by simp
    from route_headers_frame [OF inv2 r2] out plen
    have "sub_heap w' ! p = sub_heap ?w2 ! p" and "p \<notin> set (subscriptions (router w'))"
      by auto
    then show ?thesis
      using full p plen by (simp add: after_subs_nth offer_def)
  next
    case False
    have "w' = after_bridges ?msg (takeWhile (has_room w) ?R) (after_subs ?msg w)"
      using r by (simp add: route_headers_Cons_full [OF inv False])
    then show ?thesis
      using full p plen by (simp add: after_subs_nth offer_def)
  qed
qed

lemma example_world_inv: "router_inv example_world"
  by (simp add: router_inv_def example_world_def NewRouter_def make_chan_def NewNode_def)

text \<open>
  C5. A message whose header is no key of the routing table is dropped: \<open>route\<close>
  returns at once and the world is the same as before, so no queue has a new message
  and the live sets and every other field of the router are unchanged. The same holds
  for the loop's handling of that message.
\<close>

theorem route_unknown_topic:
  "routingTable (router w) (Header message) = None \<Longrightarrow>
   route message w = Done w \<and> handle (Inbound message) w = Done w"
  by (simp add: route_def handle_def)

theorem route_unknown_topic_witness:
  "route \<lparr>Header = ''other'', Body = [7]\<rparr> example_world = Done example_world"
  using route_unknown_topic [of example_world "\<lparr>Header = ''other'', Body = [7]\<rparr>"]
  by (simp add: example_world_def NewRouter_def)

section \<open>Peers: no filter on the way out, and a send that waits\<close>

lemma refilter_simps [simp]:
  "sub_heap (refilter F w) = sub_heap w"
  "router (refilter F w) = router w"
  "length (bridge_heap (refilter F w)) = length (bridge_heap w)"
  "refilter F (w\<lparr>sub_heap := H\<rparr>) = (refilter F w)\<lparr>sub_heap := H\<rparr>"
  "refilter F (w\<lparr>router := r\<rparr>) = (refilter F w)\<lparr>router := r\<rparr>"
  by (simp_all add: refilter_def)

lemma route_sub_refilter:
  "route_sub msg p (refilter F w) =
     (case route_sub msg p w of Inl f \<Rightarrow> Inl f | Inr w' \<Rightarrow> Inr (refilter F w'))"
  by (simp add: route_sub_def sub_at_def split: option.splits outcome.splits sum.splits)

lemma route_subs_refilter:
  "route_subs msg ps (refilter F w) =
     (case route_subs msg ps w of Inl f \<Rightarrow> Inl f | Inr w' \<Rightarrow> Inr (refilter F w'))"
proof (induction ps arbitrary: w)
  case Nil
  then show ?case by simp
next
  case (Cons p ps)
  then show ?case
    by (cases "route_sub msg p w") (simp_all add: route_sub_refilter)
qed

lemma Write_refilter:
  "Write msg (n\<lparr>filters := F\<rparr>) =
     (case Write msg n of
        Done (n', e) \<Rightarrow> Done (n'\<lparr>filters := F\<rparr>, e)
      | Blocked u \<Rightarrow> Blocked u
      | Panic f \<Rightarrow> Panic f)"
  by (simp add: Write_def chan_send_def)

lemma Node_filters_writeQueue:
  "n\<lparr>filters := F, writeQueue := q\<rparr> = n\<lparr>writeQueue := q, filters := F\<rparr>"
  by (cases n) simp

lemma WritePassthrough_refilter:
  "WritePassthrough b msg (refilter F w) =
     (case WritePassthrough b msg w of
        Done w' \<Rightarrow> Done (refilter F w')
      | Blocked u \<Rightarrow> Blocked u
      | Panic f \<Rightarrow> Panic f)"
  by (simp add: WritePassthrough_def bridge_at_def Write_def chan_send_def refilter_def
      map_update Node_filters_writeQueue)

lemma route_bridges_refilter:
  "route_bridges msg bs (refilter F w) = on_world (refilter F) (route_bridges msg bs w)"
proof (induction bs arbitrary: w)
  case Nil
  then show ?case by simp
next
  case (Cons b bs)
  show ?case
  proof (cases "WritePassthrough b msg w")
    case (Done w1)
    then show ?thesis by (simp add: WritePassthrough_refilter Cons.IH)
  next
    case (Blocked u)
    then show ?thesis by (simp add: WritePassthrough_refilter)
  next
    case (Panic f)
    then show ?thesis by (simp add: WritePassthrough_refilter)
  qed
qed

lemma route_headers_refilter:
  "route_headers body hs (refilter F w) = on_world (refilter F) (route_headers body hs w)"
proof (induction hs arbitrary: w)
  case Nil
  then show ?case by simp
next
  case (Cons h hs)
  let ?msg = "\<lparr>Header = h, Body = body\<rparr>"
  show ?case
  proof (cases "route_subs ?msg (subscriptions (router w)) w")
    case (Inl f)
    then show ?thesis by (simp add: route_headers.simps(2) route_subs_refilter)
  next
    case (Inr w1)
    show ?thesis
    proof (cases "route_bridges ?msg (routerConnections (router w1)) w1")
      case (Done w2)
      then show ?thesis
        using Inr by (simp add: route_headers.simps(2) route_subs_refilter route_bridges_refilter Cons.IH)
    next
      case (Blocked x)
      then show ?thesis
        using Inr
        by (cases x) (simp add: route_headers.simps(2) route_subs_refilter route_bridges_refilter)
    next
      case (Panic f)
      then show ?thesis
        using Inr by (simp add: route_headers.simps(2) route_subs_refilter route_bridges_refilter)
    qed
  qed
qed

lemma route_refilter:
  "route message (refilter F w) = on_world (refilter F) (route message w)"
  by (simp add: route_def route_headers_refilter split: option.splits)

text \<open>
  C10. What \<open>route\<close> does is independent of the filter maps of the bridges' nodes:
  with every filter map replaced by any other, it returns or parks at the same point
  with the same queues; \<open>Write\<close> never looks at the filter map. So every rewritten
  message reaches the write queue of every live bridge, whether or not its header is
  a key of that node's filter map. The filter map is read only by the reader pump,
  which skips a message it reads when the header is no key.
\<close>

theorem route_ignores_filters:
  "route message (refilter F w) = on_world (refilter F) (route message w)
   \<and> Write message (n\<lparr>filters := F\<rparr>) =
       (case Write message n of
          Done (n', e) \<Rightarrow> Done (n'\<lparr>filters := F\<rparr>, e)
        | Blocked u \<Rightarrow> Blocked u
        | Panic f \<Rightarrow> Panic f)
   \<and> (router_inv w \<and> routingTable (router w) (Header message) = Some outs
      \<and> (\<forall>b\<in>set (routerConnections (router w)).
           length (buf (writeQueue (Node (bridge_heap w ! b)))) + length outs
             \<le> cap (writeQueue (Node (bridge_heap w ! b)))) \<longrightarrow>
      (\<exists>w'. route message w = Done w'
         \<and> (\<forall>b\<in>set (routerConnections (router w)).
              buf (writeQueue (Node (bridge_heap w' ! b))) =
                buf (writeQueue (Node (bridge_heap w ! b))) @ map (rewritten message) outs
            \<and> filters (Node (bridge_heap w' ! b)) = filters (Node (bridge_heap w ! b)))))
   \<and> (filters n (Header message) = None \<longrightarrow> readPump_loop [message] n = Done n)"
proof (intro conjI impI)
  show "route message (refilter F w) = on_world (refilter F) (route message w)"
    by (rule route_refilter)
next
  show "Write message (n\<lparr>filters := F\<rparr>) =
       (case Write message n of
          Done (n', e) \<Rightarrow> Done (n'\<lparr>filters := F\<rparr>, e)
        | Blocked u \<Rightarrow> Blocked u
        | Panic f \<Rightarrow> Panic f)"
    by (rule Write_refilter)
next
  assume a: "router_inv w \<and> routingTable (router w) (Header message) = Some outs
      \<and> (\<forall>b\<in>set (routerConnections (router w)).
           length (buf (writeQueue (Node (bridge_heap w ! b)))) + length outs
             \<le> cap (writeQueue (Node (bridge_heap w ! b))))"
  have rw: "rewritten message = (\<lambda>t. \<lparr>Header = t, Body = Body message\<rparr>)"
    by (rule ext) (simp add: rewritten_def)
  from a have inv: "router_inv w" by simp
  from a route_headers_progress [of w outs "Body message"]
  obtain w' where run: "route_headers (Body message) outs w = Done w'" by blast
  have "route message w = Done w'"
    using run a by (simp add: route_Some)
  moreover have "\<forall>b\<in>set (routerConnections (router w)).
              buf (writeQueue (Node (bridge_heap w' ! b))) =
                buf (writeQueue (Node (bridge_heap w ! b))) @ map (rewritten message) outs
            \<and> filters (Node (bridge_heap w' ! b)) = filters (Node (bridge_heap w ! b))"
    using route_headers_Done_bridge [OF inv run] unfolding rw by simp
  ultimately show "\<exists>w'. route message w = Done w'
         \<and> (\<forall>b\<in>set (routerConnections (router w)).
              buf (writeQueue (Node (bridge_heap w' ! b))) =
                buf (writeQueue (Node (bridge_heap w ! b))) @ map (rewritten message) outs
            \<and> filters (Node (bridge_heap w' ! b)) = filters (Node (bridge_heap w ! b)))"
    by blast
next
  assume "filters n (Header message) = None"
  then show "readPump_loop [message] n = Done n" by simp
qed

theorem route_ignores_filters_witness:
  "\<exists>w'. route \<lparr>Header = ''a'', Body = [7]\<rparr> example_world = Done w'
     \<and> dom (filters (Node (bridge_heap example_world ! 0))) = {''a''}
     \<and> buf (writeQueue (Node (bridge_heap w' ! 0)))
         = [\<lparr>Header = ''b'', Body = [7]\<rparr>, \<lparr>Header = ''c'', Body = [7]\<rparr>]"
proof -
  have "router_inv example_world
      \<and> routingTable (router example_world) (Header \<lparr>Header = ''a'', Body = [7]\<rparr>)
          = Some [''b'', ''c'']
      \<and> (\<forall>b\<in>set (routerConnections (router example_world)).
           length (buf (writeQueue (Node (bridge_heap example_world ! b)))) + length [''b'', ''c'']
             \<le> cap (writeQueue (Node (bridge_heap example_world ! b))))"
    using example_world_inv
    by (simp add: example_world_def NewRouter_def NewNode_def make_chan_def)
  with route_ignores_filters [of "\<lparr>Header = ''a'', Body = [7]\<rparr>" _ example_world _ "[''b'', ''c'']"]
  obtain w' where "route \<lparr>Header = ''a'', Body = [7]\<rparr> example_world = Done w'"
    and "\<forall>b\<in>set (routerConnections (router example_world)).
              buf (writeQueue (Node (bridge_heap w' ! b))) =
                buf (writeQueue (Node (bridge_heap example_world ! b)))
                  @ map (rewritten \<lparr>Header = ''a'', Body = [7]\<rparr>) [''b'', ''c'']
            \<and> filters (Node (bridge_heap w' ! b)) = filters (Node (bridge_heap example_world ! b))"
    by blast
  then show ?thesis
    by (auto simp: example_world_def NewRouter_def NewNode_def make_chan_def rewritten_def)
qed

lemma settle_reached:
  "settle r = Inr c \<Longrightarrow> \<exists>w'. reached r = Some w'"
  by (cases r) (auto simp: settle_def)

lemma resume_Cons:
  assumes "b < length (bridge_heap v)" and "\<not> closed (writeQueue (Node (bridge_heap v ! b)))"
  shows "resume (Parked msg (b # bs) hs) v =
     (if has_room v b
      then resume (Parked msg bs hs) (v\<lparr>bridge_heap := (bridge_heap v)[b := push msg (bridge_heap v ! b)]\<rparr>)
      else Blocked (v, Parked msg (b # bs) hs))"
  using assms by (simp add: resume_def WritePassthrough_eq)

lemma has_room_after_recv:
  assumes "b < length (bridge_heap v)" and "buf (writeQueue (Node (bridge_heap v ! b))) \<noteq> []"
    and "length (buf (writeQueue (Node (bridge_heap v ! b)))) \<le> cap (writeQueue (Node (bridge_heap v ! b)))"
  shows "has_room (Node_writePump_recv b v) b"
  using assms
  by (cases "buf (writeQueue (Node (bridge_heap v ! b)))")
    (simp_all add: Node_writePump_recv_def bridge_at_def chan_recv_def has_room_def)

lemma route_headers_stall:
  assumes inv: "router_inv w" and full: "\<exists>b\<in>set (routerConnections (router w)). \<not> has_room w b"
  shows "\<exists>w' b bs. route_headers body (t # ts) w
            = Blocked (w', Parked \<lparr>Header = t, Body = body\<rparr> (b # bs) ts)
       \<and> b \<in> set (routerConnections (router w)) \<and> \<not> has_room w' b"
proof -
  let ?msg = "\<lparr>Header = t, Body = body\<rparr>"
  let ?R = "routerConnections (router w)"
  let ?w' = "after_bridges ?msg (takeWhile (has_room w) ?R) (after_subs ?msg w)"
  from full have nall: "\<not> (\<forall>b\<in>set ?R. has_room w b)" by simp
  then have "dropWhile (has_room w) ?R \<noteq> []" by (simp add: dropWhile_eq_Nil_conv)
  then obtain b bs where dw: "dropWhile (has_room w) ?R = b # bs"
    by (cases "dropWhile (has_room w) ?R") auto
  then have nb: "\<not> has_room w b" using hd_dropWhile [of "has_room w" ?R] by simp
  have bR: "b \<in> set ?R" using dw set_dropWhileD [of b "has_room w" ?R] by simp
  then have blen: "b < length (bridge_heap w)" using inv by (simp add: router_inv_def)
  have "b \<notin> set (takeWhile (has_room w) ?R)" using nb by (auto dest: set_takeWhileD)
  then have "bridge_heap ?w' ! b = bridge_heap w ! b"
    using blen by (simp add: after_bridges_nth)
  then have "\<not> has_room ?w' b" using nb by (simp add: has_room_def)
  moreover have "route_headers body (t # ts) w = Blocked (?w', Parked ?msg (b # bs) ts)"
    using route_headers_Cons_full [OF inv nall] dw by simp
  ultimately show ?thesis using bR by blast
qed

section \<open>The loop never closes a queue twice\<close>

lemma route_settle:
  "router_inv w \<Longrightarrow> \<exists>c. settle (route message w) = Inr c \<and> cfg_inv c"
proof (cases "routingTable (router w) (Header message)")
  case None
  assume "router_inv w"
  with None show ?thesis by (simp add: route_def settle_def)
next
  case (Some outs)
  assume "router_inv w"
  from route_headers_settle [OF this] Some show ?thesis by (simp add: route_def)
qed

lemma resume_settle:
  assumes inv: "router_inv w" and ok: "parked_ok w pk"
  shows "\<exists>c. settle (resume pk w) = Inr c \<and> cfg_inv c"
proof (cases pk)
  case (Parked msg bs hs)
  with ok have d: "distinct bs" and sub: "set bs \<subseteq> set (routerConnections (router w))"
    by simp_all
  have valid: "\<forall>b\<in>set bs. b < length (bridge_heap w)
      \<and> \<not> closed (writeQueue (Node (bridge_heap w ! b)))"
    using inv sub by (auto simp: router_inv_def)
  note eq = route_bridges_eq [OF d valid, of msg]
  show ?thesis
  proof (cases "\<forall>b\<in>set bs. has_room w b")
    case True
    have rb: "route_bridges msg bs w = Done (after_bridges msg bs w)"
      unfolding eq by (rule if_P [OF True])
    have "router_inv (after_bridges msg bs w)" using inv by (rule inv_after_bridges)
    from route_headers_settle [OF this, of "Body msg" hs] show ?thesis
      by (simp add: Parked resume_def rb)
  next
    case False
    have "router_inv (after_bridges msg (takeWhile (has_room w) bs) w)"
      using inv by (rule inv_after_bridges)
    moreover have "distinct (dropWhile (has_room w) bs)" using d by simp
    moreover have "set (dropWhile (has_room w) bs) \<subseteq> set (routerConnections (router w))"
      using sub by (auto dest: set_dropWhileD)
    moreover have "route_bridges msg bs w =
        Blocked (after_bridges msg (takeWhile (has_room w) bs) w, dropWhile (has_room w) bs)"
      unfolding eq by (rule if_not_P [OF False])
    ultimately show ?thesis
      by (simp add: Parked resume_def settle_def)
  qed
qed

lemma accept_inv:
  assumes "router_inv w"
  shows "router_inv (handle_register (length (sub_heap w))
           (w\<lparr>sub_heap := sub_heap w @ [\<lparr>send = make_chan 1024\<rparr>]\<rparr>))"
proof -
  have fresh: "length (sub_heap w) \<notin> set (subscriptions (router w))"
    using assms by (auto simp: router_inv_def)
  show ?thesis
    using assms fresh
    by (auto simp: router_inv_def handle_register_def nth_append make_chan_def)
qed

lemma handle_unregister_inv:
  assumes "router_inv w"
  shows "\<exists>w'. handle_unregister p w = Inr w' \<and> router_inv w'"
proof (cases "p \<in> set (subscriptions (router w))")
  case False
  then show ?thesis using assms by (simp add: handle_unregister_def)
next
  case True
  then have p: "p < length (sub_heap w)" "\<not> closed (send (sub_heap w ! p))"
    using assms by (simp_all add: router_inv_def)
  show ?thesis
    using True p assms
    by (auto simp: handle_unregister_def sub_at_def chan_close_def router_inv_def
        distinct_removeAll nth_list_update)
qed

lemma sub_recv_inv:
  assumes "router_inv w"
  shows "router_inv (Subscription_writePump_recv p w)"
    and "router (Subscription_writePump_recv p w) = router w"
proof -
  show "router (Subscription_writePump_recv p w) = router w"
    by (simp add: Subscription_writePump_recv_def sub_at_def chan_recv_def
        split: list.splits)
  show "router_inv (Subscription_writePump_recv p w)"
    using assms
    by (auto simp: Subscription_writePump_recv_def sub_at_def chan_recv_def router_inv_def
        nth_list_update split: list.splits)
qed

lemma node_recv_inv:
  assumes "router_inv w"
  shows "router_inv (Node_writePump_recv b w)"
    and "router (Node_writePump_recv b w) = router w"
proof -
  show "router (Node_writePump_recv b w) = router w"
    by (simp add: Node_writePump_recv_def bridge_at_def chan_recv_def
        split: list.splits)
  show "router_inv (Node_writePump_recv b w)"
    using assms
    by (auto simp: Node_writePump_recv_def bridge_at_def chan_recv_def router_inv_def
        nth_list_update split: list.splits)
qed

lemma connect_peer_inv:
  assumes "router_inv w"
  shows "router_inv (connect_peer addr fs d w)"
proof (cases d)
  case (Inl e)
  then show ?thesis
    using assms
    by (simp add: connect_peer_def StartBridge_def ConnectToRouter_NewNode_fail)
next
  case (Inr c)
  have fresh: "length (bridge_heap w) \<notin> set (routerConnections (router w))"
    using assms by (auto simp: router_inv_def)
  have "connect_peer addr fs d w =
      w\<lparr>bridge_heap := bridge_heap w
           @ [\<lparr>Node = (NewNode addr fs)\<lparr>routerAddress := addr, conn := Some c, state := ''good''\<rparr>,
               Router = 0\<rparr>],
        router := (router w)
          \<lparr>routerConnections := routerConnections (router w) @ [length (bridge_heap w)]\<rparr>\<rparr>"
    using fresh by (simp add: Inr connect_peer_def StartBridge_def ConnectToRouter_NewNode_ok)
  then show ?thesis
    using assms fresh
    by (auto simp: router_inv_def nth_append NewNode_def make_chan_def)
qed

lemma exec_inv:
  assumes "cfg_inv c"
  shows "\<exists>c'. exec a c = Inr c' \<and> cfg_inv c'"
proof (cases c)
  case (Running w)
  with assms have inv: "router_inv w" by simp
  show ?thesis
  proof (cases a)
    case Accept
    then show ?thesis
      using accept_inv [OF inv]
      by (simp add: Running new_subscription_def handle_def settle_def)
  next
    case (ReaderExit p)
    then show ?thesis
      using handle_unregister_inv [OF inv, of p]
      by (auto simp: Running handle_def settle_def)
  next
    case (Deliver message)
    then show ?thesis
      using route_settle [OF inv, of message] by (simp add: Running handle_def)
  next
    case (SubWriter p)
    then show ?thesis using sub_recv_inv(1) [OF inv] by (simp add: Running)
  next
    case (NodeWriter b)
    then show ?thesis using node_recv_inv(1) [OF inv] by (simp add: Running)
  next
    case (PeerUp addr fs d)
    then show ?thesis using connect_peer_inv [OF inv] by (simp add: Running)
  qed
next
  case (Stalled w pk)
  with assms have inv: "router_inv w" and ok: "parked_ok w pk" by simp_all
  show ?thesis
  proof (cases a)
    case (SubWriter p)
    have "parked_ok (Subscription_writePump_recv p w) pk"
      using ok sub_recv_inv(2) [OF inv, of p] by (cases pk) simp
    from resume_settle [OF sub_recv_inv(1) [OF inv] this] show ?thesis
      by (simp add: Stalled SubWriter)
  next
    case (NodeWriter b)
    have "parked_ok (Node_writePump_recv b w) pk"
      using ok node_recv_inv(2) [OF inv, of b] by (cases pk) simp
    from resume_settle [OF node_recv_inv(1) [OF inv] this] show ?thesis
      by (simp add: Stalled NodeWriter)
  qed (use assms Stalled in simp_all)
qed

lemma run_inv:
  "cfg_inv c \<Longrightarrow> \<exists>c'. run acts c = Inr c' \<and> cfg_inv c'"
proof (induction acts arbitrary: c)
  case Nil
  then show ?case by simp
next
  case (Cons a acts)
  from exec_inv [OF Cons.prems, of a] obtain c1 where "exec a c = Inr c1" and "cfg_inv c1"
    by blast
  with Cons.IH [of c1] show ?case by simp
qed

lemma init_inv: "cfg_inv (Running (StartRouter_init table))"
  by (simp add: StartRouter_init_def NewRouter_def router_inv_def)

lemma full_world_inv: "router_inv full_world"
  by (simp add: router_inv_def full_world_def NewRouter_def)

text \<open>
  C2. The invariant of the loop (every live subscription has an open send queue,
  every live bridge an open write queue, a parked \<open>route\<close> has only live bridges
  left) holds when \<open>StartRouter\<close> enters its loop and is kept by every step of the
  loop and of the goroutines around it, and no step panics: in particular no run from
  the start ever closes a closed queue. When \<open>route\<close> finds the send queue of a live
  subscription full, then in the world it reaches (returning or parked) that queue is
  closed, once and with nothing else of the subscription changed, the subscription
  is no longer in the live set, the invariant holds, and handling an unregistration
  request for that subscription changes nothing: it closes nothing a second time.
\<close>

theorem full_queue_closed_once:
  "cfg_inv (Running (StartRouter_init table))
   \<and> (cfg_inv c \<longrightarrow> (\<exists>c'. run acts c = Inr c' \<and> cfg_inv c'))
   \<and> run acts (Running (StartRouter_init table)) \<noteq> Inl CloseOfClosed
   \<and> (router_inv w \<and> p \<in> set (subscriptions (router w))
      \<and> \<not> length (buf (send (sub_heap w ! p))) < cap (send (sub_heap w ! p))
      \<and> routingTable (router w) (Header message) = Some (t # ts) \<longrightarrow>
      (\<exists>w'. reached (route message w) = Some w'
         \<and> router_inv w'
         \<and> p \<notin> set (subscriptions (router w'))
         \<and> sub_heap w' ! p = (sub_heap w ! p)\<lparr>send := (send (sub_heap w ! p))\<lparr>closed := True\<rparr>\<rparr>
         \<and> handle_unregister p w' = Inr w'))"
proof (intro conjI impI)
  show "cfg_inv (Running (StartRouter_init table))" by (rule init_inv)
next
  assume "cfg_inv c"
  then show "\<exists>c'. run acts c = Inr c' \<and> cfg_inv c'" by (rule run_inv)
next
  from run_inv [OF init_inv, of acts table]
  show "run acts (Running (StartRouter_init table)) \<noteq> Inl CloseOfClosed" by auto
next
  assume a: "router_inv w \<and> p \<in> set (subscriptions (router w))
      \<and> \<not> length (buf (send (sub_heap w ! p))) < cap (send (sub_heap w ! p))
      \<and> routingTable (router w) (Header message) = Some (t # ts)"
  then have inv: "router_inv w" and rt: "route message w = route_headers (Body message) (t # ts) w"
    by (simp_all add: route_Some)
  from route_headers_settle [OF inv, of "Body message" "t # ts"]
  obtain c where st: "settle (route_headers (Body message) (t # ts) w) = Inr c" and ci: "cfg_inv c"
    by blast
  then obtain w' where r: "reached (route_headers (Body message) (t # ts) w) = Some w'"
    using settle_reached by blast
  have inv': "router_inv w'"
    using st ci r by (cases "route_headers (Body message) (t # ts) w") (auto simp: settle_def)
  from a route_headers_full_sub [OF inv _ _ r, of p]
  have gone: "p \<notin> set (subscriptions (router w'))"
    and cl: "sub_heap w' ! p = (sub_heap w ! p)\<lparr>send := (send (sub_heap w ! p))\<lparr>closed := True\<rparr>\<rparr>"
    by simp_all
  from gone have "handle_unregister p w' = Inr w'" by (simp add: handle_unregister_def)
  with r inv' gone cl show "\<exists>w'. reached (route message w) = Some w'
         \<and> router_inv w'
         \<and> p \<notin> set (subscriptions (router w'))
         \<and> sub_heap w' ! p = (sub_heap w ! p)\<lparr>send := (send (sub_heap w ! p))\<lparr>closed := True\<rparr>\<rparr>
         \<and> handle_unregister p w' = Inr w'"
    unfolding rt by blast
qed

theorem full_queue_closed_once_witness:
  "run [Deliver \<lparr>Header = ''a'', Body = [7]\<rparr>, ReaderExit 0] (Running full_world) =
     Inr (Running (full_world
         \<lparr>sub_heap := [\<lparr>send = \<lparr>buf = replicate 1024 old_message, cap = 1024, closed = True\<rparr>\<rparr>],
          router := (router full_world)\<lparr>subscriptions := []\<rparr>\<rparr>))
   \<and> 0 \<in> set (subscriptions (router full_world))"
proof -
  have pre: "router_inv full_world \<and> 0 \<in> set (subscriptions (router full_world))
      \<and> \<not> length (buf (send (sub_heap full_world ! 0))) < cap (send (sub_heap full_world ! 0))
      \<and> routingTable (router full_world) (Header \<lparr>Header = ''a'', Body = [7]\<rparr>) = Some (''b'' # [])"
    using full_world_inv by (simp add: full_world_def NewRouter_def)
  from full_queue_closed_once
    [of "[''a'' \<mapsto> [''b'']]" "Running full_world"
        "[Deliver \<lparr>Header = ''a'', Body = [7]\<rparr>, ReaderExit 0]" full_world 0
        "\<lparr>Header = ''a'', Body = [7]\<rparr>" "''b''" "[]"] pre
  obtain w' where "reached (route \<lparr>Header = ''a'', Body = [7]\<rparr> full_world) = Some w'"
    and "handle_unregister 0 w' = Inr w'"
    by blast
  moreover have "route \<lparr>Header = ''a'', Body = [7]\<rparr> full_world
     = Done (full_world
         \<lparr>sub_heap := [\<lparr>send = \<lparr>buf = replicate 1024 old_message, cap = 1024, closed = True\<rparr>\<rparr>],
          router := (router full_world)\<lparr>subscriptions := []\<rparr>\<rparr>)"
    by (simp add: full_world_def NewRouter_def route_def route_headers.simps(2) route_sub_def
      sub_at_def chan_send_def chan_close_def)
  ultimately show ?thesis
    by (simp add: handle_def settle_def) (simp add: full_world_def)
qed

section \<open>What a dispatch sends, also when it has to wait\<close>

text \<open>
  A dispatch is followed from the step that takes the message from \<open>inChan\<close>
  through any steps of the goroutines around the loop, up to the next message. For a
  bridge, what its writer has taken, then what is in its queue, then what the
  dispatch still owes it, is at every moment the queue as it was followed by all the
  rewritten messages. For a subscription the same holds for a first part of the
  rewritten messages, and the part is all that has been processed unless the
  subscription was closed and removed.
\<close>

lemma rewritten_fun: "rewritten \<lparr>Header = t, Body = body\<rparr> = (\<lambda>h. \<lparr>Header = h, Body = body\<rparr>)"
  by (rule ext) (simp add: rewritten_def)

lemma rewritten_Body: "rewritten message = (\<lambda>h. \<lparr>Header = h, Body = Body message\<rparr>)"
  by (rule ext) (simp add: rewritten_def)

lemma settle_world: "settle r = Inr c \<Longrightarrow> reached r = Some (world_of c)"
  by (cases r) (auto simp: settle_def)

lemma take_drop_While_mem:
  assumes "distinct xs" and "x \<in> set xs"
  shows "x \<in> set (takeWhile P xs) \<longleftrightarrow> x \<notin> set (dropWhile P xs)"
proof -
  have "distinct (takeWhile P xs @ dropWhile P xs)" using assms(1) by simp
  moreover have "x \<in> set (takeWhile P xs @ dropWhile P xs)" using assms(2) by simp
  ultimately show ?thesis by (auto simp del: takeWhile_dropWhile_id)
qed

lemma bridge_queue_after_bridges:
  "b < length (bridge_heap w) \<Longrightarrow>
   bridge_queue (after_bridges msg bs w) b =
     (if b \<in> set bs then bridge_queue w b @ [msg] else bridge_queue w b)"
  by (simp add: bridge_queue_def after_bridges_nth push_def)

lemma bridge_queue_after_subs [simp]:
  "bridge_queue (after_subs msg w) b = bridge_queue w b"
  by (simp add: bridge_queue_def)

lemma route_headers_owed:
  "router_inv w \<Longrightarrow> b \<in> set (routerConnections (router w)) \<Longrightarrow>
   settle (route_headers body ts w) = Inr c' \<Longrightarrow>
   bridge_queue (world_of c') b @ owed b c' =
     bridge_queue w b @ map (\<lambda>h. \<lparr>Header = h, Body = body\<rparr>) ts"
proof (induction ts arbitrary: w)
  case Nil
  then show ?case by (auto simp: settle_def)
next
  case (Cons t ts)
  let ?msg = "\<lparr>Header = t, Body = body\<rparr>"
  let ?R = "routerConnections (router w)"
  have blen: "b < length (bridge_heap w)"
    using Cons.prems(1,2) by (simp add: router_inv_def)
  show ?case
  proof (cases "\<forall>b\<in>set ?R. has_room w b")
    case True
    let ?w2 = "after_bridges ?msg ?R (after_subs ?msg w)"
    have inv2: "router_inv ?w2"
      using Cons.prems(1) by (intro inv_after_bridges inv_after_subs)
    have b2: "b \<in> set (routerConnections (router ?w2))" using Cons.prems(2) by simp
    have "settle (route_headers body ts ?w2) = Inr c'"
      using Cons.prems(3) by (simp add: route_headers_Cons_room [OF Cons.prems(1) True])
    from Cons.IH [OF inv2 b2 this] show ?thesis
      using blen Cons.prems(2) by (simp add: bridge_queue_after_bridges)
  next
    case False
    let ?tw = "takeWhile (has_room w) ?R"
    let ?dw = "dropWhile (has_room w) ?R"
    have c': "c' = Stalled (after_bridges ?msg ?tw (after_subs ?msg w)) (Parked ?msg ?dw ts)"
      using Cons.prems(3)
      by (simp add: route_headers_Cons_full [OF Cons.prems(1) False] settle_def)
    have "distinct ?R" using Cons.prems(1) by (simp add: router_inv_def)
    from take_drop_While_mem [OF this Cons.prems(2), of "has_room w"]
    show ?thesis
      using blen by (simp add: c' bridge_queue_after_bridges rewritten_fun)
  qed
qed

lemma resume_owed:
  assumes inv: "router_inv w" and ok: "parked_ok w pk"
    and b: "b \<in> set (routerConnections (router w))"
    and st: "settle (resume pk w) = Inr c'"
  shows "bridge_queue (world_of c') b @ owed b c' = bridge_queue w b @ owed b (Stalled w pk)"
proof (cases pk)
  case (Parked msg bs hs)
  with ok have d: "distinct bs" and sub: "set bs \<subseteq> set (routerConnections (router w))"
    by simp_all
  have valid: "\<forall>b\<in>set bs. b < length (bridge_heap w)
      \<and> \<not> closed (writeQueue (Node (bridge_heap w ! b)))"
    using inv sub by (auto simp: router_inv_def)
  have blen: "b < length (bridge_heap w)" using inv b by (simp add: router_inv_def)
  note eq = route_bridges_eq [OF d valid, of msg]
  show ?thesis
  proof (cases "\<forall>b\<in>set bs. has_room w b")
    case True
    have rb: "route_bridges msg bs w = Done (after_bridges msg bs w)"
      unfolding eq by (rule if_P [OF True])
    have inv2: "router_inv (after_bridges msg bs w)" using inv by (rule inv_after_bridges)
    have b2: "b \<in> set (routerConnections (router (after_bridges msg bs w)))" using b by simp
    have "settle (route_headers (Body msg) hs (after_bridges msg bs w)) = Inr c'"
      using st by (simp add: Parked resume_def rb)
    from route_headers_owed [OF inv2 b2 this] show ?thesis
      using blen by (simp add: Parked bridge_queue_after_bridges rewritten_Body)
  next
    case False
    let ?tw = "takeWhile (has_room w) bs"
    let ?dw = "dropWhile (has_room w) bs"
    have rb: "route_bridges msg bs w = Blocked (after_bridges msg ?tw w, ?dw)"
      unfolding eq by (rule if_not_P [OF False])
    have c': "c' = Stalled (after_bridges msg ?tw w) (Parked msg ?dw hs)"
      using st by (simp add: Parked resume_def rb settle_def)
    show ?thesis
    proof (cases "b \<in> set bs")
      case True
      from take_drop_While_mem [OF d True, of "has_room w"] show ?thesis
        using blen True by (simp add: c' Parked bridge_queue_after_bridges)
    next
      case False
      then have "b \<notin> set ?tw" and "b \<notin> set ?dw"
        by (auto dest: set_takeWhileD set_dropWhileD)
      then show ?thesis
        using blen False by (simp add: c' Parked bridge_queue_after_bridges)
    qed
  qed
qed

lemma route_headers_conns:
  assumes "router_inv w" and "settle (route_headers body ts w) = Inr c'"
  shows "routerConnections (router (world_of c')) = routerConnections (router w)"
  using route_headers_frame [OF assms(1) settle_world [OF assms(2)]] by simp

lemma resume_conns:
  assumes inv: "router_inv w" and ok: "parked_ok w pk" and st: "settle (resume pk w) = Inr c'"
  shows "routerConnections (router (world_of c')) = routerConnections (router w)"
proof (cases pk)
  case (Parked msg bs hs)
  with ok have d: "distinct bs" and sub: "set bs \<subseteq> set (routerConnections (router w))"
    by simp_all
  have valid: "\<forall>b\<in>set bs. b < length (bridge_heap w)
      \<and> \<not> closed (writeQueue (Node (bridge_heap w ! b)))"
    using inv sub by (auto simp: router_inv_def)
  note eq = route_bridges_eq [OF d valid, of msg]
  show ?thesis
  proof (cases "\<forall>b\<in>set bs. has_room w b")
    case True
    have rb: "route_bridges msg bs w = Done (after_bridges msg bs w)"
      unfolding eq by (rule if_P [OF True])
    have inv2: "router_inv (after_bridges msg bs w)" using inv by (rule inv_after_bridges)
    have "settle (route_headers (Body msg) hs (after_bridges msg bs w)) = Inr c'"
      using st by (simp add: Parked resume_def rb)
    from route_headers_conns [OF inv2 this] show ?thesis by simp
  next
    case False
    have rb: "route_bridges msg bs w =
        Blocked (after_bridges msg (takeWhile (has_room w) bs) w, dropWhile (has_room w) bs)"
      unfolding eq by (rule if_not_P [OF False])
    show ?thesis
      using st by (auto simp: Parked resume_def rb settle_def)
  qed
qed

lemma node_recv_queue:
  "b < length (bridge_heap w) \<Longrightarrow>
   bridge_queue (Node_writePump_recv q w) b =
     (if q = b then drop 1 (bridge_queue w b) else bridge_queue w b)"
  by (cases "buf (writeQueue (Node (bridge_heap w ! q)))")
    (auto simp: Node_writePump_recv_def bridge_at_def chan_recv_def bridge_queue_def
      nth_list_update)

lemma node_recv_frame [simp]:
  "sub_heap (Node_writePump_recv q w) = sub_heap w"
  "length (bridge_heap (Node_writePump_recv q w)) = length (bridge_heap w)"
  by (simp_all add: Node_writePump_recv_def bridge_at_def chan_recv_def split: list.splits)

lemma sub_recv_frame [simp]:
  "bridge_heap (Subscription_writePump_recv p w) = bridge_heap w"
  "length (sub_heap (Subscription_writePump_recv p w)) = length (sub_heap w)"
  by (simp_all add: Subscription_writePump_recv_def sub_at_def chan_recv_def split: list.splits)

lemma bridge_queue_sub_recv [simp]:
  "bridge_queue (Subscription_writePump_recv p w) b = bridge_queue w b"
  by (simp add: bridge_queue_def)

lemma handle_unregister_frame:
  assumes "handle_unregister p w = Inr w'"
  shows "bridge_heap w' = bridge_heap w"
    and "routerConnections (router w') = routerConnections (router w)"
    and "length (sub_heap w') = length (sub_heap w)"
  using assms
  by (auto simp: handle_unregister_def sub_at_def chan_close_def split: if_splits)

lemma connect_peer_frame:
  assumes "b < length (bridge_heap w)"
  shows "bridge_queue (connect_peer addr fs d w) b = bridge_queue w b"
    and "set (routerConnections (router w))
          \<subseteq> set (routerConnections (router (connect_peer addr fs d w)))"
    and "sub_heap (connect_peer addr fs d w) = sub_heap w"
    and "subscriptions (router (connect_peer addr fs d w)) = subscriptions (router w)"
proof -
  have "bridge_queue (connect_peer addr fs d w) b = bridge_queue w b
      \<and> set (routerConnections (router w))
          \<subseteq> set (routerConnections (router (connect_peer addr fs d w)))
      \<and> sub_heap (connect_peer addr fs d w) = sub_heap w
      \<and> subscriptions (router (connect_peer addr fs d w)) = subscriptions (router w)"
  proof (cases d)
    case (Inl e)
    then show ?thesis
      by (simp add: connect_peer_def StartBridge_def ConnectToRouter_NewNode_fail)
  next
    case (Inr c)
    then show ?thesis
      using assms
      by (auto simp: connect_peer_def StartBridge_def ConnectToRouter_NewNode_ok
          bridge_queue_def nth_append)
  qed
  then show "bridge_queue (connect_peer addr fs d w) b = bridge_queue w b"
    and "set (routerConnections (router w))
          \<subseteq> set (routerConnections (router (connect_peer addr fs d w)))"
    and "sub_heap (connect_peer addr fs d w) = sub_heap w"
    and "subscriptions (router (connect_peer addr fs d w)) = subscriptions (router w)"
    by simp_all
qed

lemma exec_owed:
  assumes ci: "cfg_inv c" and nd: "\<not> is_deliver a"
    and b: "b \<in> set (routerConnections (router (world_of c)))"
    and ex: "exec a c = Inr c'"
  shows "node_takes b a c @ bridge_queue (world_of c') b @ owed b c'
           = bridge_queue (world_of c) b @ owed b c
       \<and> b \<in> set (routerConnections (router (world_of c')))"
proof (cases c)
  case (Running w)
  with ci have inv: "router_inv w" by simp
  from b Running have bw: "b \<in> set (routerConnections (router w))" by simp
  then have blen: "b < length (bridge_heap w)" using inv by (simp add: router_inv_def)
  show ?thesis
  proof (cases a)
    case Accept
    then show ?thesis
      using ex bw
      by (auto simp: Running new_subscription_def handle_def settle_def handle_register_def
          node_takes_def bridge_queue_def)
  next
    case (ReaderExit p)
    then obtain w' where "handle_unregister p w = Inr w'" and "c' = Running w'"
      using ex by (auto simp: Running handle_def settle_def split: sum.splits)
    then show ?thesis
      using handle_unregister_frame(1,2) [of p w w'] bw
      by (simp add: Running ReaderExit node_takes_def bridge_queue_def)
  next
    case (Deliver message)
    then show ?thesis using nd by simp
  next
    case (SubWriter p)
    then show ?thesis
      using ex bw sub_recv_inv(2) [OF inv, of p]
      by (auto simp: Running node_takes_def)
  next
    case (NodeWriter q)
    then show ?thesis
      using ex bw blen node_recv_inv(2) [OF inv, of q]
      by (auto simp: Running node_takes_def node_recv_queue)
  next
    case (PeerUp addr fs d)
    then show ?thesis
      using ex bw connect_peer_frame(1,2) [OF blen, of addr fs d]
      by (auto simp: Running node_takes_def)
  qed
next
  case (Stalled w pk)
  with ci have inv: "router_inv w" and ok: "parked_ok w pk" by simp_all
  from b Stalled have bw: "b \<in> set (routerConnections (router w))" by simp
  then have blen: "b < length (bridge_heap w)" using inv by (simp add: router_inv_def)
  show ?thesis
  proof (cases a)
    case (SubWriter p)
    let ?w1 = "Subscription_writePump_recv p w"
    have r1: "router ?w1 = router w" using sub_recv_inv(2) [OF inv] .
    have inv1: "router_inv ?w1" using sub_recv_inv(1) [OF inv] .
    have ok1: "parked_ok ?w1 pk" using ok r1 by (cases pk) simp
    have b1: "b \<in> set (routerConnections (router ?w1))" using bw r1 by simp
    have st: "settle (resume pk ?w1) = Inr c'" using ex by (simp add: Stalled SubWriter)
    from resume_owed [OF inv1 ok1 b1 st] resume_conns [OF inv1 ok1 st] show ?thesis
      using bw r1 by (cases pk) (simp add: Stalled SubWriter node_takes_def)
  next
    case (NodeWriter q)
    let ?w1 = "Node_writePump_recv q w"
    have r1: "router ?w1 = router w" using node_recv_inv(2) [OF inv] .
    have inv1: "router_inv ?w1" using node_recv_inv(1) [OF inv] .
    have ok1: "parked_ok ?w1 pk" using ok r1 by (cases pk) simp
    have b1: "b \<in> set (routerConnections (router ?w1))" using bw r1 by simp
    have st: "settle (resume pk ?w1) = Inr c'" using ex by (simp add: Stalled NodeWriter)
    from resume_owed [OF inv1 ok1 b1 st] resume_conns [OF inv1 ok1 st] show ?thesis
      using bw r1 blen
      by (cases pk) (auto simp: Stalled NodeWriter node_takes_def node_recv_queue)
  next
    case (Deliver message)
    then show ?thesis using nd by simp
  qed (use ex bw Stalled in \<open>auto simp: node_takes_def\<close>)
qed

lemma run_owed:
  "cfg_inv c \<Longrightarrow> \<forall>a\<in>set acts. \<not> is_deliver a \<Longrightarrow>
   b \<in> set (routerConnections (router (world_of c))) \<Longrightarrow> run acts c = Inr c' \<Longrightarrow>
   bridge_taken b acts c @ bridge_queue (world_of c') b @ owed b c'
     = bridge_queue (world_of c) b @ owed b c
   \<and> b \<in> set (routerConnections (router (world_of c')))"
proof (induction acts arbitrary: c)
  case Nil
  then show ?case by simp
next
  case (Cons a acts)
  from exec_inv [OF Cons.prems(1), of a] obtain c1 where c1: "exec a c = Inr c1" "cfg_inv c1"
    by blast
  from Cons.prems(2) have nd: "\<not> is_deliver a" and rest: "\<forall>a\<in>set acts. \<not> is_deliver a"
    by simp_all
  from exec_owed [OF Cons.prems(1) nd Cons.prems(3) c1(1)]
  have s1: "node_takes b a c @ bridge_queue (world_of c1) b @ owed b c1
           = bridge_queue (world_of c) b @ owed b c"
    and b1: "b \<in> set (routerConnections (router (world_of c1)))"
    by simp_all
  have "run acts c1 = Inr c'" using Cons.prems(4) c1(1) by simp
  from Cons.IH [OF c1(2) rest b1 this] s1 show ?case
    by (simp add: c1(1))
qed

lemma progress_compose:
  fixes P :: "'a list"
  assumes "j1 \<le> i1" and "i1 \<le> length P" and "tk1 @ q1 = q @ take j1 P" and "j1 < i1 \<longrightarrow> d1"
    and "d0 \<longrightarrow> j1 = 0 \<and> d1"
    and "j2 \<le> i2" and "i2 \<le> length (drop i1 P)" and "tk2 @ q2 = q1 @ take j2 (drop i1 P)"
    and "j2 < i2 \<longrightarrow> d2" and "d1 \<longrightarrow> j2 = 0 \<and> d2"
  shows "\<exists>i j. j \<le> i \<and> i \<le> length P \<and> drop i2 (drop i1 P) = drop i P
     \<and> (tk1 @ tk2) @ q2 = q @ take j P \<and> (j < i \<longrightarrow> d2) \<and> (d0 \<longrightarrow> j = 0 \<and> d2)"
proof (cases "j1 < i1")
  case True
  with assms have j2: "j2 = 0" and d2 by simp_all
  have "j1 \<le> i1 + i2 \<and> i1 + i2 \<le> length P \<and> drop i2 (drop i1 P) = drop (i1 + i2) P
     \<and> (tk1 @ tk2) @ q2 = q @ take j1 P \<and> (j1 < i1 + i2 \<longrightarrow> d2) \<and> (d0 \<longrightarrow> j1 = 0 \<and> d2)"
    using assms(1,2,3,5,7,8) j2 \<open>d2\<close> by (simp add: add.commute)
  then show ?thesis by blast
next
  case False
  with assms(1) have eq: "j1 = i1" by simp
  have "(tk1 @ tk2) @ q2 = q @ take i1 P @ take j2 (drop i1 P)"
    using assms(3,8) eq by simp
  also have "take i1 P @ take j2 (drop i1 P) = take (i1 + j2) P"
    by (simp add: take_add)
  finally have "(tk1 @ tk2) @ q2 = q @ take (i1 + j2) P" .
  then have "i1 + j2 \<le> i1 + i2 \<and> i1 + i2 \<le> length P
     \<and> drop i2 (drop i1 P) = drop (i1 + i2) P
     \<and> (tk1 @ tk2) @ q2 = q @ take (i1 + j2) P \<and> (i1 + j2 < i1 + i2 \<longrightarrow> d2)
     \<and> (d0 \<longrightarrow> i1 + j2 = 0 \<and> d2)"
    using assms(2,5,6,7,9,10) eq by (simp add: add.commute)
  then show ?thesis by blast
qed

lemma sub_after_subs:
  assumes "p < length (sub_heap w)"
  shows "sub_queue (after_subs msg w) p =
      (if p \<in> set (subscriptions (router w))
          \<and> length (sub_queue w p) < cap (send (sub_heap w ! p))
       then sub_queue w p @ [msg] else sub_queue w p)"
    and "closed (send (sub_heap (after_subs msg w) ! p)) =
      (if p \<in> set (subscriptions (router w))
          \<and> \<not> length (sub_queue w p) < cap (send (sub_heap w ! p))
       then True else closed (send (sub_heap w ! p)))"
    and "p \<in> set (subscriptions (router (after_subs msg w))) \<longleftrightarrow>
      p \<in> set (subscriptions (router w)) \<and> length (sub_queue w p) < cap (send (sub_heap w ! p))"
  using assms by (auto simp: sub_queue_def after_subs_nth offer_def)

lemma sub_queue_after_bridges [simp]:
  "sub_queue (after_bridges msg bs w) p = sub_queue w p"
  by (simp add: sub_queue_def)

lemma pack_progress:
  "A \<Longrightarrow> B \<Longrightarrow> C i j \<Longrightarrow> A \<and> B \<and> (\<exists>i j. C i j)"
  by blast

lemma route_headers_sub:
  "router_inv w \<Longrightarrow> p < length (sub_heap w) \<Longrightarrow>
   (p \<notin> set (subscriptions (router w)) \<longrightarrow> closed (send (sub_heap w ! p))) \<Longrightarrow>
   settle (route_headers body ts w) = Inr c' \<Longrightarrow>
   p < length (sub_heap (world_of c'))
   \<and> (p \<notin> set (subscriptions (router (world_of c'))) \<longrightarrow>
        closed (send (sub_heap (world_of c') ! p)))
   \<and> (\<exists>i j. j \<le> i \<and> i \<le> length ts
        \<and> pending c' = drop i (map (\<lambda>h. \<lparr>Header = h, Body = body\<rparr>) ts)
        \<and> sub_queue (world_of c') p
            = sub_queue w p @ take j (map (\<lambda>h. \<lparr>Header = h, Body = body\<rparr>) ts)
        \<and> (j < i \<longrightarrow> p \<notin> set (subscriptions (router (world_of c'))))
        \<and> (p \<notin> set (subscriptions (router w)) \<longrightarrow>
              j = 0 \<and> p \<notin> set (subscriptions (router (world_of c')))))"
proof (induction ts arbitrary: w)
  case Nil
  then have "c' = Running w" by (simp add: settle_def)
  with Nil show ?case by simp
next
  case (Cons t ts)
  let ?msg = "\<lparr>Header = t, Body = body\<rparr>"
  let ?mk = "\<lambda>h. \<lparr>Header = h, Body = body\<rparr>"
  let ?R = "routerConnections (router w)"
  let ?live = "p \<in> set (subscriptions (router w))"
  let ?room = "length (sub_queue w p) < cap (send (sub_heap w ! p))"
  note sa = sub_after_subs [OF Cons.prems(2), of ?msg]
  show ?case
  proof (cases "\<forall>b\<in>set ?R. has_room w b")
    case False
    let ?w' = "after_bridges ?msg (takeWhile (has_room w) ?R) (after_subs ?msg w)"
    have c': "c' = Stalled ?w' (Parked ?msg (dropWhile (has_room w) ?R) ts)"
      using Cons.prems(4)
      by (simp add: route_headers_Cons_full [OF Cons.prems(1) False] settle_def)
    have pend: "pending c' = drop 1 (map ?mk (t # ts))"
      by (simp add: c' rewritten_fun)
    have len: "p < length (sub_heap (world_of c'))" using Cons.prems(2) by (simp add: c')
    have dead: "p \<notin> set (subscriptions (router (world_of c'))) \<longrightarrow>
        closed (send (sub_heap (world_of c') ! p))"
      using sa(2,3) Cons.prems(3) by (auto simp: c')
    show ?thesis
    proof (cases "?live \<and> ?room")
      case True
      then have "sub_queue (world_of c') p = sub_queue w p @ take 1 (map ?mk (t # ts))"
        using sa(1) by (simp add: c')
      moreover have "p \<in> set (subscriptions (router (world_of c')))"
        using True sa(3) by (simp add: c')
      ultimately have "(1::nat) \<le> 1 \<and> 1 \<le> length (t # ts)
        \<and> pending c' = drop 1 (map ?mk (t # ts))
        \<and> sub_queue (world_of c') p = sub_queue w p @ take 1 (map ?mk (t # ts))
        \<and> ((1::nat) < 1 \<longrightarrow> p \<notin> set (subscriptions (router (world_of c'))))
        \<and> (\<not> ?live \<longrightarrow> (1::nat) = 0 \<and> p \<notin> set (subscriptions (router (world_of c'))))"
        using pend True by simp
      with len dead show ?thesis by (rule pack_progress)
    next
      case False
      then have "sub_queue (world_of c') p = sub_queue w p @ take 0 (map ?mk (t # ts))"
        using sa(1) by (auto simp: c')
      moreover have "p \<notin> set (subscriptions (router (world_of c')))"
        using False sa(3) by (auto simp: c')
      ultimately have "(0::nat) \<le> 1 \<and> 1 \<le> length (t # ts)
        \<and> pending c' = drop 1 (map ?mk (t # ts))
        \<and> sub_queue (world_of c') p = sub_queue w p @ take 0 (map ?mk (t # ts))
        \<and> ((0::nat) < 1 \<longrightarrow> p \<notin> set (subscriptions (router (world_of c'))))
        \<and> (\<not> ?live \<longrightarrow> (0::nat) = 0 \<and> p \<notin> set (subscriptions (router (world_of c'))))"
        using pend by simp
      with len dead show ?thesis by (rule pack_progress)
    qed
  next
    case True
    let ?w2 = "after_bridges ?msg ?R (after_subs ?msg w)"
    have inv2: "router_inv ?w2"
      using Cons.prems(1) by (intro inv_after_bridges inv_after_subs)
    have len2: "p < length (sub_heap ?w2)" using Cons.prems(2) by simp
    have dead2: "p \<notin> set (subscriptions (router ?w2)) \<longrightarrow> closed (send (sub_heap ?w2 ! p))"
      using sa(2,3) Cons.prems(3) by auto
    have st2: "settle (route_headers body ts ?w2) = Inr c'"
      using Cons.prems(4) by (simp add: route_headers_Cons_room [OF Cons.prems(1) True])
    from Cons.IH [OF inv2 len2 dead2 st2]
    obtain i j where len: "p < length (sub_heap (world_of c'))"
      and dead: "p \<notin> set (subscriptions (router (world_of c'))) \<longrightarrow>
        closed (send (sub_heap (world_of c') ! p))"
      and ij: "j \<le> i" "i \<le> length ts"
      and pend: "pending c' = drop i (map ?mk ts)"
      and q: "sub_queue (world_of c') p = sub_queue ?w2 p @ take j (map ?mk ts)"
      and lt: "j < i \<longrightarrow> p \<notin> set (subscriptions (router (world_of c')))"
      and nl: "p \<notin> set (subscriptions (router ?w2)) \<longrightarrow>
              j = 0 \<and> p \<notin> set (subscriptions (router (world_of c')))"
      by (elim conjE exE) (rule that, assumption+)
    show ?thesis
    proof (cases "?live \<and> ?room")
      case True
      then have "sub_queue ?w2 p = sub_queue w p @ [?msg]" using sa(1) by simp
      then have "Suc j \<le> Suc i \<and> Suc i \<le> length (t # ts)
        \<and> pending c' = drop (Suc i) (map ?mk (t # ts))
        \<and> sub_queue (world_of c') p = sub_queue w p @ take (Suc j) (map ?mk (t # ts))
        \<and> (Suc j < Suc i \<longrightarrow> p \<notin> set (subscriptions (router (world_of c'))))
        \<and> (\<not> ?live \<longrightarrow> Suc j = 0 \<and> p \<notin> set (subscriptions (router (world_of c'))))"
        using ij pend q lt True by simp
      with len dead show ?thesis by (rule pack_progress)
    next
      case False
      then have nl2: "p \<notin> set (subscriptions (router ?w2))" using sa(3) by auto
      with nl have j0: "j = 0" and gone: "p \<notin> set (subscriptions (router (world_of c')))"
        by simp_all
      have "sub_queue ?w2 p = sub_queue w p" using False sa(1) by auto
      then have "(0::nat) \<le> Suc i \<and> Suc i \<le> length (t # ts)
        \<and> pending c' = drop (Suc i) (map ?mk (t # ts))
        \<and> sub_queue (world_of c') p = sub_queue w p @ take 0 (map ?mk (t # ts))
        \<and> ((0::nat) < Suc i \<longrightarrow> p \<notin> set (subscriptions (router (world_of c'))))
        \<and> (\<not> ?live \<longrightarrow> (0::nat) = 0 \<and> p \<notin> set (subscriptions (router (world_of c'))))"
        using ij pend q j0 gone by simp
      with len dead show ?thesis by (rule pack_progress)
    qed
  qed
qed

lemma resume_sub:
  assumes inv: "router_inv w" and ok: "parked_ok w pk" and plen: "p < length (sub_heap w)"
    and dc: "p \<notin> set (subscriptions (router w)) \<longrightarrow> closed (send (sub_heap w ! p))"
    and st: "settle (resume pk w) = Inr c'"
  shows "p < length (sub_heap (world_of c'))
   \<and> (p \<notin> set (subscriptions (router (world_of c'))) \<longrightarrow>
        closed (send (sub_heap (world_of c') ! p)))
   \<and> (\<exists>i j. j \<le> i \<and> i \<le> length (pending (Stalled w pk))
        \<and> pending c' = drop i (pending (Stalled w pk))
        \<and> sub_queue (world_of c') p = sub_queue w p @ take j (pending (Stalled w pk))
        \<and> (j < i \<longrightarrow> p \<notin> set (subscriptions (router (world_of c'))))
        \<and> (p \<notin> set (subscriptions (router w)) \<longrightarrow>
              j = 0 \<and> p \<notin> set (subscriptions (router (world_of c')))))"
proof (cases pk)
  case (Parked msg bs hs)
  with ok have d: "distinct bs" and sub: "set bs \<subseteq> set (routerConnections (router w))"
    by simp_all
  have valid: "\<forall>b\<in>set bs. b < length (bridge_heap w)
      \<and> \<not> closed (writeQueue (Node (bridge_heap w ! b)))"
    using inv sub by (auto simp: router_inv_def)
  note eq = route_bridges_eq [OF d valid, of msg]
  show ?thesis
  proof (cases "\<forall>b\<in>set bs. has_room w b")
    case True
    let ?w2 = "after_bridges msg bs w"
    have rb: "route_bridges msg bs w = Done ?w2"
      unfolding eq by (rule if_P [OF True])
    have inv2: "router_inv ?w2" using inv by (rule inv_after_bridges)
    have len2: "p < length (sub_heap ?w2)" using plen by simp
    have dc2: "p \<notin> set (subscriptions (router ?w2)) \<longrightarrow> closed (send (sub_heap ?w2 ! p))"
      using dc by simp
    have st2: "settle (route_headers (Body msg) hs ?w2) = Inr c'"
      using st by (simp add: Parked resume_def rb)
    from route_headers_sub [OF inv2 len2 dc2 st2] show ?thesis
      by (simp add: Parked rewritten_Body)
  next
    case False
    let ?w' = "after_bridges msg (takeWhile (has_room w) bs) w"
    have rb: "route_bridges msg bs w = Blocked (?w', dropWhile (has_room w) bs)"
      unfolding eq by (rule if_not_P [OF False])
    have c': "c' = Stalled ?w' (Parked msg (dropWhile (has_room w) bs) hs)"
      using st by (simp add: Parked resume_def rb settle_def)
    have "(0::nat) \<le> 0 \<and> 0 \<le> length (pending (Stalled w pk))
        \<and> pending c' = drop 0 (pending (Stalled w pk))
        \<and> sub_queue (world_of c') p = sub_queue w p @ take 0 (pending (Stalled w pk))
        \<and> ((0::nat) < 0 \<longrightarrow> p \<notin> set (subscriptions (router (world_of c'))))
        \<and> (p \<notin> set (subscriptions (router w)) \<longrightarrow>
              (0::nat) = 0 \<and> p \<notin> set (subscriptions (router (world_of c'))))"
      by (simp add: c' Parked)
    moreover have "p < length (sub_heap (world_of c'))" using plen by (simp add: c')
    moreover have "p \<notin> set (subscriptions (router (world_of c'))) \<longrightarrow>
        closed (send (sub_heap (world_of c') ! p))"
      using dc by (simp add: c')
    ultimately show ?thesis by (intro pack_progress)
  qed
qed

lemma sub_recv_queue:
  "p < length (sub_heap w) \<Longrightarrow>
   sub_queue (Subscription_writePump_recv q w) p =
     (if q = p then drop 1 (sub_queue w p) else sub_queue w p)"
  by (cases "buf (send (sub_heap w ! q))")
    (auto simp: Subscription_writePump_recv_def sub_at_def chan_recv_def sub_queue_def
      nth_list_update)

lemma sub_recv_closed:
  "p < length (sub_heap w) \<Longrightarrow>
   closed (send (sub_heap (Subscription_writePump_recv q w) ! p)) = closed (send (sub_heap w ! p))"
  by (cases "buf (send (sub_heap w ! q))")
    (auto simp: Subscription_writePump_recv_def sub_at_def chan_recv_def nth_list_update)

lemma sub_queue_node_recv [simp]:
  "sub_queue (Node_writePump_recv q w) p = sub_queue w p"
  by (simp add: sub_queue_def)

lemma handle_unregister_sub:
  assumes "router_inv w" and "p < length (sub_heap w)" and "handle_unregister q w = Inr w'"
  shows "sub_queue w' p = sub_queue w p"
    and "p \<in> set (subscriptions (router w')) \<longleftrightarrow> p \<in> set (subscriptions (router w)) \<and> q \<noteq> p"
    and "closed (send (sub_heap w' ! p)) \<longleftrightarrow>
          closed (send (sub_heap w ! p)) \<or> (q = p \<and> p \<in> set (subscriptions (router w)))"
  using assms
  by (auto simp: handle_unregister_def sub_at_def chan_close_def sub_queue_def router_inv_def
      nth_list_update split: if_splits)

lemma accept_sub:
  assumes "p < length (sub_heap w)"
  shows "sub_queue (handle_register (length (sub_heap w))
            (w\<lparr>sub_heap := sub_heap w @ [\<lparr>send = make_chan 1024\<rparr>]\<rparr>)) p = sub_queue w p"
    and "p \<in> set (subscriptions (router (handle_register (length (sub_heap w))
            (w\<lparr>sub_heap := sub_heap w @ [\<lparr>send = make_chan 1024\<rparr>]\<rparr>))))
         \<longleftrightarrow> p \<in> set (subscriptions (router w))"
    and "closed (send (sub_heap (handle_register (length (sub_heap w))
            (w\<lparr>sub_heap := sub_heap w @ [\<lparr>send = make_chan 1024\<rparr>]\<rparr>)) ! p))
         = closed (send (sub_heap w ! p))"
    and "p < length (sub_heap (handle_register (length (sub_heap w))
            (w\<lparr>sub_heap := sub_heap w @ [\<lparr>send = make_chan 1024\<rparr>]\<rparr>)))"
  using assms by (auto simp: handle_register_def sub_queue_def nth_append)

lemma still_progress:
  assumes "pending c' = pending c" and "p < length (sub_heap (world_of c'))"
    and "p \<notin> set (subscriptions (router (world_of c'))) \<longrightarrow>
        closed (send (sub_heap (world_of c') ! p))"
    and "tk @ sub_queue (world_of c') p = sub_queue (world_of c) p"
    and "p \<notin> set (subscriptions (router (world_of c))) \<longrightarrow>
         p \<notin> set (subscriptions (router (world_of c')))"
  shows "p < length (sub_heap (world_of c'))
   \<and> (p \<notin> set (subscriptions (router (world_of c'))) \<longrightarrow>
        closed (send (sub_heap (world_of c') ! p)))
   \<and> (\<exists>i j. j \<le> i \<and> i \<le> length (pending c)
        \<and> pending c' = drop i (pending c)
        \<and> tk @ sub_queue (world_of c') p = sub_queue (world_of c) p @ take j (pending c)
        \<and> (j < i \<longrightarrow> p \<notin> set (subscriptions (router (world_of c'))))
        \<and> (p \<notin> set (subscriptions (router (world_of c))) \<longrightarrow>
              j = 0 \<and> p \<notin> set (subscriptions (router (world_of c')))))"
proof -
  have "(0::nat) \<le> 0 \<and> 0 \<le> length (pending c)
        \<and> pending c' = drop 0 (pending c)
        \<and> tk @ sub_queue (world_of c') p = sub_queue (world_of c) p @ take 0 (pending c)
        \<and> ((0::nat) < 0 \<longrightarrow> p \<notin> set (subscriptions (router (world_of c'))))
        \<and> (p \<notin> set (subscriptions (router (world_of c))) \<longrightarrow>
              (0::nat) = 0 \<and> p \<notin> set (subscriptions (router (world_of c'))))"
    using assms by simp
  with assms(2,3) show ?thesis by (rule pack_progress)
qed

lemma stalled_step_sub:
  assumes inv: "router_inv w" and ok: "parked_ok w pk" and plen: "p < length (sub_heap w)"
    and dc: "p \<notin> set (subscriptions (router w)) \<longrightarrow> closed (send (sub_heap w ! p))"
    and inv1: "router_inv w1" and r1: "router w1 = router w"
    and len1: "length (sub_heap w1) = length (sub_heap w)"
    and cl1: "closed (send (sub_heap w1 ! p)) = closed (send (sub_heap w ! p))"
    and tk: "tk @ sub_queue w1 p = sub_queue w p"
    and st: "settle (resume pk w1) = Inr c'"
  shows "p < length (sub_heap (world_of c'))
   \<and> (p \<notin> set (subscriptions (router (world_of c'))) \<longrightarrow>
        closed (send (sub_heap (world_of c') ! p)))
   \<and> (\<exists>i j. j \<le> i \<and> i \<le> length (pending (Stalled w pk))
        \<and> pending c' = drop i (pending (Stalled w pk))
        \<and> tk @ sub_queue (world_of c') p = sub_queue w p @ take j (pending (Stalled w pk))
        \<and> (j < i \<longrightarrow> p \<notin> set (subscriptions (router (world_of c'))))
        \<and> (p \<notin> set (subscriptions (router w)) \<longrightarrow>
              j = 0 \<and> p \<notin> set (subscriptions (router (world_of c')))))"
proof -
  have ok1: "parked_ok w1 pk" using ok r1 by (cases pk) simp
  have plen1: "p < length (sub_heap w1)" using plen len1 by simp
  have dc1: "p \<notin> set (subscriptions (router w1)) \<longrightarrow> closed (send (sub_heap w1 ! p))"
    using dc r1 cl1 by simp
  have pd: "pending (Stalled w1 pk) = pending (Stalled w pk)" by (cases pk) simp
  from resume_sub [OF inv1 ok1 plen1 dc1 st]
  obtain i j where len: "p < length (sub_heap (world_of c'))"
    and dead: "p \<notin> set (subscriptions (router (world_of c'))) \<longrightarrow>
        closed (send (sub_heap (world_of c') ! p))"
    and ij: "j \<le> i" "i \<le> length (pending (Stalled w1 pk))"
    and pend: "pending c' = drop i (pending (Stalled w1 pk))"
    and q: "sub_queue (world_of c') p = sub_queue w1 p @ take j (pending (Stalled w1 pk))"
    and lt: "j < i \<longrightarrow> p \<notin> set (subscriptions (router (world_of c')))"
    and nl: "p \<notin> set (subscriptions (router w1)) \<longrightarrow>
              j = 0 \<and> p \<notin> set (subscriptions (router (world_of c')))"
    by (elim conjE exE) (rule that, assumption+)
  have "tk @ sub_queue (world_of c') p = sub_queue w p @ take j (pending (Stalled w pk))"
    using q tk pd by (metis append.assoc)
  then have "j \<le> i \<and> i \<le> length (pending (Stalled w pk))
        \<and> pending c' = drop i (pending (Stalled w pk))
        \<and> tk @ sub_queue (world_of c') p = sub_queue w p @ take j (pending (Stalled w pk))
        \<and> (j < i \<longrightarrow> p \<notin> set (subscriptions (router (world_of c'))))
        \<and> (p \<notin> set (subscriptions (router w)) \<longrightarrow>
              j = 0 \<and> p \<notin> set (subscriptions (router (world_of c'))))"
    using ij pend lt nl pd r1 by simp
  with len dead show ?thesis by (rule pack_progress)
qed

lemma exec_sub:
  assumes ci: "cfg_inv c" and nd: "\<not> is_deliver a"
    and plen: "p < length (sub_heap (world_of c))"
    and dc: "p \<notin> set (subscriptions (router (world_of c))) \<longrightarrow>
        closed (send (sub_heap (world_of c) ! p))"
    and ex: "exec a c = Inr c'"
  shows "p < length (sub_heap (world_of c'))
   \<and> (p \<notin> set (subscriptions (router (world_of c'))) \<longrightarrow>
        closed (send (sub_heap (world_of c') ! p)))
   \<and> (\<exists>i j. j \<le> i \<and> i \<le> length (pending c)
        \<and> pending c' = drop i (pending c)
        \<and> sub_takes p a c @ sub_queue (world_of c') p = sub_queue (world_of c) p @ take j (pending c)
        \<and> (j < i \<longrightarrow> p \<notin> set (subscriptions (router (world_of c'))))
        \<and> (p \<notin> set (subscriptions (router (world_of c))) \<longrightarrow>
              j = 0 \<and> p \<notin> set (subscriptions (router (world_of c')))))"
proof (cases c)
  case (Running w)
  with ci have inv: "router_inv w" by simp
  from plen dc Running have pw: "p < length (sub_heap w)"
    and dw: "p \<notin> set (subscriptions (router w)) \<longrightarrow> closed (send (sub_heap w ! p))"
    by simp_all
  show ?thesis
  proof (cases a)
    case Accept
    let ?w' = "handle_register (length (sub_heap w))
            (w\<lparr>sub_heap := sub_heap w @ [\<lparr>send = make_chan 1024\<rparr>]\<rparr>)"
    have c': "c' = Running ?w'"
      using ex by (simp add: Running Accept new_subscription_def handle_def settle_def)
    show ?thesis
      using accept_sub [OF pw] dw
      by (intro still_progress) (simp_all add: c' Running Accept sub_takes_def)
  next
    case (ReaderExit q)
    then obtain w' where hu: "handle_unregister q w = Inr w'" and c': "c' = Running w'"
      using ex by (auto simp: Running handle_def settle_def split: sum.splits)
    show ?thesis
      using handle_unregister_sub [OF inv pw hu] handle_unregister_frame(3) [OF hu] dw pw
      by (intro still_progress) (auto simp: c' Running ReaderExit sub_takes_def)
  next
    case (Deliver message)
    then show ?thesis using nd by simp
  next
    case (SubWriter q)
    have c': "c' = Running (Subscription_writePump_recv q w)"
      using ex by (simp add: Running SubWriter)
    show ?thesis
      using sub_recv_queue [OF pw, of q] sub_recv_closed [OF pw, of q]
        sub_recv_inv(2) [OF inv, of q] dw pw
      by (intro still_progress) (auto simp: c' Running SubWriter sub_takes_def)
  next
    case (NodeWriter q)
    have c': "c' = Running (Node_writePump_recv q w)"
      using ex by (simp add: Running NodeWriter)
    show ?thesis
      using node_recv_inv(2) [OF inv, of q] dw pw
      by (intro still_progress) (auto simp: c' Running NodeWriter sub_takes_def)
  next
    case (PeerUp addr fs d)
    have c': "c' = Running (connect_peer addr fs d w)"
      using ex by (simp add: Running PeerUp)
    have sh: "sub_heap (connect_peer addr fs d w) = sub_heap w"
      and ss: "subscriptions (router (connect_peer addr fs d w)) = subscriptions (router w)"
    proof -
      have "sub_heap (connect_peer addr fs d w) = sub_heap w
        \<and> subscriptions (router (connect_peer addr fs d w)) = subscriptions (router w)"
        by (cases d)
          (auto simp: connect_peer_def StartBridge_def ConnectToRouter_NewNode_fail
            ConnectToRouter_NewNode_ok)
      then show "sub_heap (connect_peer addr fs d w) = sub_heap w"
        and "subscriptions (router (connect_peer addr fs d w)) = subscriptions (router w)"
        by simp_all
    qed
    show ?thesis
      using sh ss dw pw
      by (intro still_progress) (auto simp: c' Running PeerUp sub_takes_def sub_queue_def)
  qed
next
  case (Stalled w pk)
  with ci have inv: "router_inv w" and ok: "parked_ok w pk" by simp_all
  from plen dc Stalled have pw: "p < length (sub_heap w)"
    and dw: "p \<notin> set (subscriptions (router w)) \<longrightarrow> closed (send (sub_heap w ! p))"
    by simp_all
  show ?thesis
  proof (cases a)
    case (SubWriter q)
    let ?w1 = "Subscription_writePump_recv q w"
    have st: "settle (resume pk ?w1) = Inr c'" using ex by (simp add: Stalled SubWriter)
    have tk: "sub_takes p a c @ sub_queue ?w1 p = sub_queue w p"
      using pw by (simp add: SubWriter Stalled sub_takes_def sub_recv_queue)
    from stalled_step_sub [OF inv ok pw dw sub_recv_inv(1) [OF inv] sub_recv_inv(2) [OF inv]
        sub_recv_frame(2) sub_recv_closed [OF pw] tk st]
    show ?thesis by (simp add: Stalled)
  next
    case (NodeWriter q)
    let ?w1 = "Node_writePump_recv q w"
    have st: "settle (resume pk ?w1) = Inr c'" using ex by (simp add: Stalled NodeWriter)
    have tk: "sub_takes p a c @ sub_queue ?w1 p = sub_queue w p"
      by (simp add: NodeWriter sub_takes_def)
    have len1: "length (sub_heap ?w1) = length (sub_heap w)" by simp
    have cl1: "closed (send (sub_heap ?w1 ! p)) = closed (send (sub_heap w ! p))" by simp
    from stalled_step_sub [OF inv ok pw dw node_recv_inv(1) [OF inv] node_recv_inv(2) [OF inv]
        len1 cl1 tk st]
    show ?thesis by (simp add: Stalled)
  next
    case (Deliver message)
    then show ?thesis using nd by simp
  next
    case Accept
    then have "c' = c" using ex by (simp add: Stalled)
    then show ?thesis
      using plen dc by (intro still_progress) (simp_all add: Accept sub_takes_def)
  next
    case (ReaderExit q)
    then have "c' = c" using ex by (simp add: Stalled)
    then show ?thesis
      using plen dc by (intro still_progress) (simp_all add: ReaderExit sub_takes_def)
  next
    case (PeerUp addr fs d)
    then have "c' = c" using ex by (simp add: Stalled)
    then show ?thesis
      using plen dc by (intro still_progress) (simp_all add: PeerUp sub_takes_def)
  qed
qed

lemma run_sub:
  "cfg_inv c \<Longrightarrow> \<forall>a\<in>set acts. \<not> is_deliver a \<Longrightarrow>
   p < length (sub_heap (world_of c)) \<Longrightarrow>
   (p \<notin> set (subscriptions (router (world_of c))) \<longrightarrow>
        closed (send (sub_heap (world_of c) ! p))) \<Longrightarrow>
   run acts c = Inr c' \<Longrightarrow>
   p < length (sub_heap (world_of c'))
   \<and> (p \<notin> set (subscriptions (router (world_of c'))) \<longrightarrow>
        closed (send (sub_heap (world_of c') ! p)))
   \<and> (\<exists>i j. j \<le> i \<and> i \<le> length (pending c)
        \<and> pending c' = drop i (pending c)
        \<and> sub_taken p acts c @ sub_queue (world_of c') p
            = sub_queue (world_of c) p @ take j (pending c)
        \<and> (j < i \<longrightarrow> p \<notin> set (subscriptions (router (world_of c'))))
        \<and> (p \<notin> set (subscriptions (router (world_of c))) \<longrightarrow>
              j = 0 \<and> p \<notin> set (subscriptions (router (world_of c')))))"
proof (induction acts arbitrary: c)
  case Nil
  then have "c' = c" by simp
  then show ?case
    using Nil.prems(3,4) by (intro still_progress) simp_all
next
  case (Cons a acts)
  from exec_inv [OF Cons.prems(1), of a] obtain c1 where c1: "exec a c = Inr c1" "cfg_inv c1"
    by blast
  from Cons.prems(2) have nd: "\<not> is_deliver a" and rest: "\<forall>a\<in>set acts. \<not> is_deliver a"
    by simp_all
  from exec_sub [OF Cons.prems(1) nd Cons.prems(3,4) c1(1)]
  obtain i1 j1 where len1: "p < length (sub_heap (world_of c1))"
    and dead1: "p \<notin> set (subscriptions (router (world_of c1))) \<longrightarrow>
        closed (send (sub_heap (world_of c1) ! p))"
    and ij1: "j1 \<le> i1" "i1 \<le> length (pending c)"
    and pend1: "pending c1 = drop i1 (pending c)"
    and q1: "sub_takes p a c @ sub_queue (world_of c1) p
               = sub_queue (world_of c) p @ take j1 (pending c)"
    and lt1: "j1 < i1 \<longrightarrow> p \<notin> set (subscriptions (router (world_of c1)))"
    and nl1: "p \<notin> set (subscriptions (router (world_of c))) \<longrightarrow>
              j1 = 0 \<and> p \<notin> set (subscriptions (router (world_of c1)))"
    by (elim conjE exE) (rule that, assumption+)
  have r: "run acts c1 = Inr c'" using Cons.prems(5) c1(1) by simp
  from Cons.IH [OF c1(2) rest len1 dead1 r]
  obtain i2 j2 where len2: "p < length (sub_heap (world_of c'))"
    and dead2: "p \<notin> set (subscriptions (router (world_of c'))) \<longrightarrow>
        closed (send (sub_heap (world_of c') ! p))"
    and ij2: "j2 \<le> i2" "i2 \<le> length (pending c1)"
    and pend2: "pending c' = drop i2 (pending c1)"
    and q2: "sub_taken p acts c1 @ sub_queue (world_of c') p
               = sub_queue (world_of c1) p @ take j2 (pending c1)"
    and lt2: "j2 < i2 \<longrightarrow> p \<notin> set (subscriptions (router (world_of c')))"
    and nl2: "p \<notin> set (subscriptions (router (world_of c1))) \<longrightarrow>
              j2 = 0 \<and> p \<notin> set (subscriptions (router (world_of c')))"
    by (elim conjE exE) (rule that, assumption+)
  from progress_compose [OF ij1 q1 lt1 nl1 ij2(1) ij2(2) [unfolded pend1] q2 [unfolded pend1]
      lt2 nl2]
  obtain i j where "j \<le> i" "i \<le> length (pending c)"
    "drop i2 (drop i1 (pending c)) = drop i (pending c)"
    "(sub_takes p a c @ sub_taken p acts c1) @ sub_queue (world_of c') p
        = sub_queue (world_of c) p @ take j (pending c)"
    "j < i \<longrightarrow> p \<notin> set (subscriptions (router (world_of c')))"
    "p \<notin> set (subscriptions (router (world_of c))) \<longrightarrow>
        j = 0 \<and> p \<notin> set (subscriptions (router (world_of c')))"
    by (elim conjE exE) (rule that, assumption+)
  then have "j \<le> i \<and> i \<le> length (pending c)
        \<and> pending c' = drop i (pending c)
        \<and> sub_taken p (a # acts) c @ sub_queue (world_of c') p
            = sub_queue (world_of c) p @ take j (pending c)
        \<and> (j < i \<longrightarrow> p \<notin> set (subscriptions (router (world_of c'))))
        \<and> (p \<notin> set (subscriptions (router (world_of c))) \<longrightarrow>
              j = 0 \<and> p \<notin> set (subscriptions (router (world_of c'))))"
    using pend2 pend1 c1(1) by simp
  with len2 dead2 show ?case by (rule pack_progress)
qed

lemma deliver_start:
  assumes inv: "router_inv w" and tab: "routingTable (router w) (Header message) = Some outs"
    and r: "run (Deliver message # acts) (Running w) = Inr c'"
  obtains c1 where "settle (route_headers (Body message) outs w) = Inr c1"
    and "cfg_inv c1" and "run acts c1 = Inr c'"
    and "exec (Deliver message) (Running w) = Inr c1"
proof -
  from route_headers_settle [OF inv, of "Body message" outs]
  obtain c1 where c1: "settle (route_headers (Body message) outs w) = Inr c1" "cfg_inv c1"
    by blast
  have ex: "exec (Deliver message) (Running w) = Inr c1"
    using c1(1) tab by (simp add: handle_def route_Some)
  with r have r1: "run acts c1 = Inr c'" by simp
  show ?thesis by (rule that [OF c1(1) c1(2) r1 ex])
qed

lemma dispatch_bridge:
  assumes inv: "router_inv w" and tab: "routingTable (router w) (Header message) = Some outs"
    and nd: "\<forall>a\<in>set acts. \<not> is_deliver a"
    and r: "run (Deliver message # acts) (Running w) = Inr c'"
    and b: "b \<in> set (routerConnections (router w))"
  shows "bridge_taken b (Deliver message # acts) (Running w)
           @ bridge_queue (world_of c') b @ owed b c'
         = bridge_queue w b @ map (rewritten message) outs
       \<and> b \<in> set (routerConnections (router (world_of c')))"
proof -
  from deliver_start [OF inv tab r]
  obtain c1 where st: "settle (route_headers (Body message) outs w) = Inr c1"
    and ci: "cfg_inv c1" and r1: "run acts c1 = Inr c'"
    and ex: "exec (Deliver message) (Running w) = Inr c1"
    by blast
  have b1: "b \<in> set (routerConnections (router (world_of c1)))"
    using route_headers_conns [OF inv st] b by simp
  from ex have ex': "settle (handle (Inbound message) w) = Inr c1" by simp
  from run_owed [OF ci nd b1 r1] route_headers_owed [OF inv b st]
  show ?thesis
    by (simp add: ex' node_takes_def rewritten_Body)
qed

lemma dispatch_sub:
  assumes inv: "router_inv w" and tab: "routingTable (router w) (Header message) = Some outs"
    and nd: "\<forall>a\<in>set acts. \<not> is_deliver a"
    and r: "run (Deliver message # acts) (Running w) = Inr c'"
    and p: "p \<in> set (subscriptions (router w))"
  shows "\<exists>i j. j \<le> i \<and> i \<le> length outs
        \<and> pending c' = drop i (map (rewritten message) outs)
        \<and> sub_taken p (Deliver message # acts) (Running w) @ sub_queue (world_of c') p
            = sub_queue w p @ take j (map (rewritten message) outs)
        \<and> (j < i \<longrightarrow> p \<notin> set (subscriptions (router (world_of c')))
                      \<and> closed (send (sub_heap (world_of c') ! p)))"
proof -
  let ?P = "map (\<lambda>h. \<lparr>Header = h, Body = Body message\<rparr>) outs"
  from deliver_start [OF inv tab r]
  obtain c1 where st: "settle (route_headers (Body message) outs w) = Inr c1"
    and ci: "cfg_inv c1" and r1: "run acts c1 = Inr c'"
    and ex: "exec (Deliver message) (Running w) = Inr c1"
    by blast
  have plen: "p < length (sub_heap w)" using inv p by (simp add: router_inv_def)
  have dc: "p \<notin> set (subscriptions (router w)) \<longrightarrow> closed (send (sub_heap w ! p))"
    using p by simp
  from route_headers_sub [OF inv plen dc st]
  obtain i1 j1 where len1: "p < length (sub_heap (world_of c1))"
    and dead1: "p \<notin> set (subscriptions (router (world_of c1))) \<longrightarrow>
        closed (send (sub_heap (world_of c1) ! p))"
    and ij1: "j1 \<le> i1" "i1 \<le> length outs"
    and pend1: "pending c1 = drop i1 ?P"
    and q1: "sub_queue (world_of c1) p = sub_queue w p @ take j1 ?P"
    and lt1: "j1 < i1 \<longrightarrow> p \<notin> set (subscriptions (router (world_of c1)))"
    by (elim conjE exE) (rule that, assumption+)
  from run_sub [OF ci nd len1 dead1 r1]
  obtain i2 j2 where len2: "p < length (sub_heap (world_of c'))"
    and dead2: "p \<notin> set (subscriptions (router (world_of c'))) \<longrightarrow>
        closed (send (sub_heap (world_of c') ! p))"
    and ij2: "j2 \<le> i2" "i2 \<le> length (pending c1)"
    and pend2: "pending c' = drop i2 (pending c1)"
    and q2: "sub_taken p acts c1 @ sub_queue (world_of c') p
               = sub_queue (world_of c1) p @ take j2 (pending c1)"
    and lt2: "j2 < i2 \<longrightarrow> p \<notin> set (subscriptions (router (world_of c')))"
    and nl2: "p \<notin> set (subscriptions (router (world_of c1))) \<longrightarrow>
              j2 = 0 \<and> p \<notin> set (subscriptions (router (world_of c')))"
    by (elim conjE exE) (rule that, assumption+)
  have i1P: "i1 \<le> length ?P" using ij1(2) by simp
  have q1': "[] @ sub_queue (world_of c1) p = sub_queue w p @ take j1 ?P" using q1 by simp
  have triv: "False \<longrightarrow> j1 = 0 \<and> p \<notin> set (subscriptions (router (world_of c1)))" by simp
  from progress_compose [OF ij1(1) i1P q1' lt1 triv ij2(1) ij2(2) [unfolded pend1]
      q2 [unfolded pend1] lt2 nl2]
  obtain i j where ij: "j \<le> i" "i \<le> length ?P"
    and dd: "drop i2 (drop i1 ?P) = drop i ?P"
    and qq: "([] @ sub_taken p acts c1) @ sub_queue (world_of c') p = sub_queue w p @ take j ?P"
    and lt: "j < i \<longrightarrow> p \<notin> set (subscriptions (router (world_of c')))"
    by (elim conjE exE) (rule that, assumption+)
  have "j \<le> i \<and> i \<le> length outs
        \<and> pending c' = drop i (map (rewritten message) outs)
        \<and> sub_taken p (Deliver message # acts) (Running w) @ sub_queue (world_of c') p
            = sub_queue w p @ take j (map (rewritten message) outs)
        \<and> (j < i \<longrightarrow> p \<notin> set (subscriptions (router (world_of c')))
                      \<and> closed (send (sub_heap (world_of c') ! p)))"
    using ij dd qq lt dead2 pend2 pend1 ex
    by (simp add: sub_takes_def rewritten_Body)
  then show ?thesis by blast
qed

lemma waiting_world_inv: "router_inv waiting_world"
  by (simp add: router_inv_def waiting_world_def NewRouter_def NewNode_def make_chan_def)

lemmas eval_defs =
  handle_def route_def route_headers.simps(2) route_sub_def sub_at_def chan_send_def
  chan_close_def WritePassthrough_def bridge_at_def Write_def settle_def Node_writePump_recv_def
  Subscription_writePump_recv_def chan_recv_def resume_def NewRouter_def NewNode_def make_chan_def

lemma waiting_run:
  "run [Deliver \<lparr>Header = ''a'', Body = [7]\<rparr>, NodeWriter 0, NodeWriter 0] (Running waiting_world)
   = Inr (Running (waiting_world
       \<lparr>sub_heap := [\<lparr>send = \<lparr>buf = [\<lparr>Header = ''b'', Body = [7]\<rparr>, \<lparr>Header = ''c'', Body = [7]\<rparr>],
                                cap = 1024, closed = False\<rparr>\<rparr>],
        bridge_heap := [\<lparr>Node = (NewNode ''peer:7100'' [''a''])
            \<lparr>writeQueue :=
               \<lparr>buf = replicate 4094 old_message
                        @ [\<lparr>Header = ''b'', Body = [7]\<rparr>, \<lparr>Header = ''c'', Body = [7]\<rparr>],
                cap = 4096, closed = False\<rparr>\<rparr>,
          Router = 0\<rparr>]\<rparr>))"
  by (simp add: waiting_world_def eval_defs)

lemma waiting_taken:
  "bridge_taken 0 [Deliver \<lparr>Header = ''a'', Body = [7]\<rparr>, NodeWriter 0, NodeWriter 0]
     (Running waiting_world) = [old_message, old_message]"
  by (simp add: waiting_world_def eval_defs node_takes_def bridge_queue_def)

lemma run_total:
  assumes "router_inv w"
  shows "\<exists>c'. run acts (Running w) = Inr c'"
  using run_inv [of "Running w" acts] assms by auto






end
